theory Spec2Isabelle
  imports Main "HOL-Library.Sublist"
begin

section \<open>Paths and names (module-level helpers of dependency\_graph.py)\<close>

text \<open>
  Python strings are modelled as \<^typ>\<open>string\<close>; the code points of a text are the
  characters of the list, so the model covers texts whose code points are below 256.
  Paths follow \<^verbatim>\<open>posixpath\<close>: the separator is the slash.
\<close>

definition basename :: "string \<Rightarrow> string" where
  \<comment> \<open>\<^verbatim>\<open>os.path.basename\<close>: \<^verbatim>\<open>p[p.rfind('/') + 1:]\<close>\<close>
  "basename p = rev (takeWhile (\<lambda>c. c \<noteq> CHR ''/'') (rev p))"

definition rstrip_slash :: "string \<Rightarrow> string" where
  \<comment> \<open>\<^verbatim>\<open>head.rstrip('/')\<close>\<close>
  "rstrip_slash h = rev (dropWhile (\<lambda>c. c = CHR ''/'') (rev h))"

definition dirname :: "string \<Rightarrow> string" where
  \<comment> \<open>\<^verbatim>\<open>os.path.dirname\<close>: the part up to the last slash, trailing slashes stripped
      unless the head consists of slashes only\<close>
  "dirname p =
     (let head = rev (dropWhile (\<lambda>c. c \<noteq> CHR ''/'') (rev p))
      in if head \<noteq> [] \<and> \<not> list_all (\<lambda>c. c = CHR ''/'') head
         then rstrip_slash head else head)"

definition path_join :: "string \<Rightarrow> string \<Rightarrow> string" where
  \<comment> \<open>\<^verbatim>\<open>os.path.join(a, b)\<close> for two components\<close>
  "path_join a b =
     (if b \<noteq> [] \<and> hd b = CHR ''/'' then b
      else if a = [] \<or> last a = CHR ''/'' then a @ b
      else a @ ''/'' @ b)"

fun startswith :: "string \<Rightarrow> string \<Rightarrow> bool" where
  \<comment> \<open>\<^verbatim>\<open>s.startswith(pre)\<close>\<close>
  "startswith s [] = True"
| "startswith [] (c # pre) = False"
| "startswith (d # s) (c # pre) = (d = c \<and> startswith s pre)"

definition filename_normalize :: "string \<Rightarrow> string" where
  \<comment> \<open>the base name cut before its last dot; unchanged when it has no dot\<close>
  "filename_normalize path =
     (let filename = basename path
      in if CHR ''.'' \<in> set filename
         then rev (tl (dropWhile (\<lambda>c. c \<noteq> CHR ''.'') (rev filename)))
         else filename)"

definition filename_extension :: "string \<Rightarrow> string" where
  \<comment> \<open>\<^verbatim>\<open>path[path.rfind('.'):]\<close>; without a dot \<^verbatim>\<open>rfind\<close> is -1 and the slice is
      the last character\<close>
  "filename_extension path =
     (if CHR ''.'' \<in> set path
      then CHR ''.'' # rev (takeWhile (\<lambda>c. c \<noteq> CHR ''.'') (rev path))
      else if path = [] then [] else [last path])"

section \<open>The include pattern\<close>

text \<open>
  \<^verbatim>\<open>include_regex = re.compile('#include\s+["<"](.*)[">]')\<close>.
  The class \<^verbatim>\<open>\s\<close> of a \<^verbatim>\<open>str\<close> pattern holds the whitespace code points; below 256
  these are 9 to 13, 28 to 32, 133 and 160. The dot matches every character but the
  line feed. Both quantifiers are greedy.
\<close>

definition is_space :: "char \<Rightarrow> bool" where
  "is_space c = (of_char c \<in> {9, 10, 11, 12, 13, 28, 29, 30, 31, 32, 133, 160 :: nat})"

definition is_open :: "char \<Rightarrow> bool" where
  \<comment> \<open>the class \<^verbatim>\<open>["<"]\<close>\<close>
  "is_open c = (c = CHR 0x22 \<or> c = CHR ''<'')"

definition is_close :: "char \<Rightarrow> bool" where
  \<comment> \<open>the class \<^verbatim>\<open>[">]\<close>\<close>
  "is_close c = (c = CHR 0x22 \<or> c = CHR ''>'')"

fun strip_prefix :: "string \<Rightarrow> string \<Rightarrow> string option" where
  \<comment> \<open>match a literal at the head of the text; the rest of the text\<close>
  "strip_prefix [] s = Some s"
| "strip_prefix (c # pre) [] = None"
| "strip_prefix (c # pre) (d # s) = (if c = d then strip_prefix pre s else None)"

fun capture :: "string \<Rightarrow> (string \<times> string) option" where
  \<comment> \<open>\<^verbatim>\<open>(.*)[">]\<close> with backtracking: the dot takes a character whenever the rest can
      still match, else the character itself has to close the group. The result is the
      captured text and the text after the match.\<close>
  "capture [] = None"
| "capture (c # cs) =
     (if c = CHR 0x0A then None
      else (case capture cs of
              Some (t, r) \<Rightarrow> Some (c # t, r)
            | None \<Rightarrow> if is_close c then Some ([], cs) else None))"

definition match_at :: "string \<Rightarrow> (string \<times> string) option" where
  \<comment> \<open>the pattern matched at the head of the text\<close>
  "match_at s =
     (case strip_prefix ''#include'' s of
        None \<Rightarrow> None
      | Some r \<Rightarrow>
          (if takeWhile is_space r = [] then None
           else (case dropWhile is_space r of
                   [] \<Rightarrow> None
                 | c # cs \<Rightarrow> if is_open c then capture cs else None)))"

lemma strip_prefix_length:
  "strip_prefix pre s = Some r \<Longrightarrow> length r \<le> length s"
  by (induction pre s rule: strip_prefix.induct) (auto split: if_splits)

lemma capture_length: "capture s = Some (t, r) \<Longrightarrow> length r < length s"
  by (induction s arbitrary: t r) (auto split: if_splits option.splits)

lemma match_at_length:
  assumes "match_at s = Some (t, r)"
  shows "length r < length s"
proof -
  from assms obtain r0 c cs where r0: "strip_prefix ''#include'' s = Some r0"
    and dw: "dropWhile is_space r0 = c # cs" and cap: "capture cs = Some (t, r)"
    by (auto simp: match_at_def split: option.splits if_splits list.splits)
  have "length (dropWhile is_space r0) \<le> length r0"
    by (rule length_dropWhile_le)
  with dw have "length cs < length r0" by simp
  with capture_length [OF cap] strip_prefix_length [OF r0] show ?thesis by simp
qed

function findall :: "string \<Rightarrow> string list" where
  \<comment> \<open>\<^verbatim>\<open>include_regex.findall(code)\<close>: the matches from left to right, the search
      resuming where a match ended and one character on where none started\<close>
  "findall [] = []"
| "findall (c # cs) =
     (case match_at (c # cs) of
        Some (t, r) \<Rightarrow> t # findall r
      | None \<Rightarrow> findall cs)"
  by pat_completeness auto
termination
  by (relation "measure length") (auto dest: match_at_length)

definition find_neighbors :: "(string \<Rightarrow> string) \<Rightarrow> string \<Rightarrow> string list" where
  \<comment> \<open>the first argument gives the decoded text of the file at a path\<close>
  "find_neighbors fs path = map filename_normalize (findall (fs path))"

section \<open>The graph handed to the renderer\<close>

text \<open>
  The \<^verbatim>\<open>Digraph\<close> of the rendering library collects statements in the order of the
  calls: \<^verbatim>\<open>node(name, attributes)\<close> and \<^verbatim>\<open>edge(tail_name, head_name, attributes)\<close>.
  Attributes are kept as the pairs of the call, in its order.
\<close>

type_synonym attrs = "(string \<times> string) list"

datatype stmt = Node string attrs | Edge string string attrs

record digraph =
  strict :: bool
  node_attr :: attrs
  body :: "stmt list"

definition Digraph :: "bool \<Rightarrow> attrs \<Rightarrow> digraph" where
  "Digraph s na = \<lparr>strict = s, node_attr = na, body = []\<rparr>"

definition graph_node :: "digraph \<Rightarrow> string \<Rightarrow> attrs \<Rightarrow> digraph" where
  "graph_node g name a = g\<lparr>body := body g @ [Node name a]\<rparr>"

definition graph_edge :: "digraph \<Rightarrow> string \<Rightarrow> string \<Rightarrow> attrs \<Rightarrow> digraph" where
  "graph_edge g tail_name head_name a = g\<lparr>body := body g @ [Edge tail_name head_name a]\<rparr>"

section \<open>The class DependencyGraph\<close>

definition valid_headers :: "string list \<times> string" where
  "valid_headers = ([''.h'', ''.hpp''], ''red'')"

definition valid_sources :: "string list \<times> string" where
  "valid_sources = ([''.c'', ''.cc'', ''.cpp''], ''blue'')"

definition valid_extensions :: "string list" where
  "valid_extensions = fst valid_headers @ fst valid_sources"

subsection \<open>create\_graph: nodes and groups\<close>

record build_state =
  nodes :: "string set"
  proxy_nodes :: "string \<rightharpoonup> string"
  folder_to_files :: "(string \<times> string list) list"
  graph :: digraph

fun append_to :: "string \<Rightarrow> string \<Rightarrow> (string \<times> string list) list \<Rightarrow> (string \<times> string list) list" where
  \<comment> \<open>\<^verbatim>\<open>folder_to_files[folder].append(path)\<close> on a \<^verbatim>\<open>defaultdict(list)\<close>: the keys
      keep the order of their first use\<close>
  "append_to folder path [] = [(folder, [path])]"
| "append_to folder path ((k, v) # kvs) =
     (if k = folder then (k, v @ [path]) # kvs else (k, v) # append_to folder path kvs)"

definition group_name_of :: "string \<Rightarrow> string" where
  "group_name_of grp = ''group - '' @ filename_normalize grp"

definition group_step :: "string \<Rightarrow> build_state \<times> bool \<Rightarrow> string \<Rightarrow> build_state \<times> bool" where
  \<comment> \<open>the body of \<^verbatim>\<open>for group in self.groups\<close> at one path; the flag is \<^verbatim>\<open>in_group\<close>\<close>
  "group_step path sb grp =
     (if startswith path grp
      then (let st = fst sb; group_name = group_name_of grp
            in (st\<lparr>nodes := insert group_name (nodes st),
                   graph := graph_node (graph st) group_name [(''color'', ''lightgreen'')],
                   proxy_nodes := (proxy_nodes st)(filename_normalize path \<mapsto> group_name)\<rparr>,
                True))
      else sb)"

definition register_file :: "string list \<Rightarrow> build_state \<Rightarrow> string \<Rightarrow> build_state" where
  \<comment> \<open>the body of \<^verbatim>\<open>for path in files\<close>\<close>
  "register_file groups st path =
     (let st1 = st\<lparr>folder_to_files := append_to (dirname path) path (folder_to_files st)\<rparr>;
          sb = foldl (group_step path) (st1, False) groups
      in if \<not> snd sb
         then (fst sb)\<lparr>nodes := insert (filename_normalize path) (nodes (fst sb))\<rparr>
         else fst sb)"

definition find_nodes :: "string list \<Rightarrow> digraph \<Rightarrow> string list \<Rightarrow> build_state" where
  "find_nodes groups g files =
     foldl (register_file groups)
       \<lparr>nodes = {}, proxy_nodes = Map.empty, folder_to_files = [], graph = g\<rparr> files"

subsection \<open>create\_graph: edges\<close>

definition edge_color :: "string \<Rightarrow> string" where
  \<comment> \<open>black, then the header colour, then the source colour, each test on its own\<close>
  "edge_color path =
     (let ext = filename_extension path;
          color = ''black'';
          color = (if ext \<in> set (fst valid_headers) then snd valid_headers else color);
          color = (if ext \<in> set (fst valid_sources) then snd valid_sources else color)
      in color)"

definition neighbor_step ::
  "string set \<Rightarrow> (string \<rightharpoonup> string) \<Rightarrow> string \<Rightarrow> string \<Rightarrow> digraph \<Rightarrow> string \<Rightarrow> digraph" where
  \<comment> \<open>the body of \<^verbatim>\<open>for neighbor in neighbors\<close>\<close>
  "neighbor_step ns px node color g neighbor =
     (if neighbor \<noteq> node
      then (if neighbor \<in> ns
            then graph_edge g node neighbor [(''dir'', ''back''), (''color'', color)]
            else (case px neighbor of
                    Some proxy \<Rightarrow> graph_edge g node proxy [(''dir'', ''back''), (''color'', color)]
                  | None \<Rightarrow> g))
      else g)"

definition file_step ::
  "(string \<Rightarrow> string) \<Rightarrow> string set \<Rightarrow> (string \<rightharpoonup> string) \<Rightarrow> digraph \<Rightarrow> string \<Rightarrow> digraph" where
  \<comment> \<open>the body of \<^verbatim>\<open>for path in folder_to_files[folder]\<close>\<close>
  "file_step fs ns px g path =
     (let color = edge_color path;
          node = filename_normalize path;
          g1 = graph_node g node []
      in foldl (neighbor_step ns px node color) g1 (find_neighbors fs path))"

definition folder_in_group :: "string list \<Rightarrow> string \<Rightarrow> bool" where
  \<comment> \<open>the flag \<^verbatim>\<open>in_group\<close> of the second loop\<close>
  "folder_in_group groups folder =
     foldl (\<lambda>in_group grp. if startswith folder grp then True else in_group) False groups"

definition folder_step ::
  "(string \<Rightarrow> string) \<Rightarrow> string list \<Rightarrow> string set \<Rightarrow> (string \<rightharpoonup> string) \<Rightarrow>
     digraph \<Rightarrow> string \<times> string list \<Rightarrow> digraph" where
  \<comment> \<open>the body of \<^verbatim>\<open>for folder in folder_to_files\<close>\<close>
  "folder_step fs groups ns px g kv =
     (if \<not> folder_in_group groups (fst kv)
      then foldl (file_step fs ns px) g (snd kv)
      else g)"

definition create_graph :: "(string \<Rightarrow> string) \<Rightarrow> string list \<Rightarrow> string list \<Rightarrow> bool \<Rightarrow> digraph" where
  \<comment> \<open>\<^verbatim>\<open>fs\<close> is the text of each file, \<^verbatim>\<open>groups\<close> is \<^verbatim>\<open>self.groups\<close>\<close>
  "create_graph fs groups files strict_flag =
     (let g = Digraph strict_flag [(''color'', ''lightblue2''), (''style'', ''filled'')];
          st = find_nodes groups g files
      in foldl (folder_step fs groups (nodes st) (proxy_nodes st)) (graph st) (folder_to_files st))"

text \<open>What the renderer draws: the statements read as sets.\<close>

fun edge_ends :: "stmt \<Rightarrow> (string \<times> string) list" where
  "edge_ends (Edge t h a) = [(t, h)]"
| "edge_ends (Node n a) = []"

fun node_names :: "stmt \<Rightarrow> string list" where
  "node_names (Node n a) = [n]"
| "node_names (Edge t h a) = []"

definition edge_set :: "digraph \<Rightarrow> (string \<times> string) set" where
  "edge_set g = set (concat (map edge_ends (body g)))"

definition edges_of :: "digraph \<Rightarrow> stmt list" where
  "edges_of g = filter (\<lambda>s. edge_ends s \<noteq> []) (body g)"

definition declared_nodes :: "digraph \<Rightarrow> string set" where
  "declared_nodes g = set (concat (map node_names (body g)))"

subsection \<open>find\_files and run\<close>

text \<open>
  A directory is the list of its entries in the order \<^verbatim>\<open>os.scandir\<close> yields them; the
  path of an entry is the join of the scanned path and its name. The lists
  \<^verbatim>\<open>base_blacklist\<close> and \<^verbatim>\<open>base_groups\<close> are attributes of the class, extended in
  place by \<^verbatim>\<open>+=\<close>, so they keep what earlier runs added.
\<close>

datatype dir_entry = File string | Dir string "dir_entry list"

fun find_files :: "string list \<Rightarrow> string \<Rightarrow> dir_entry list \<Rightarrow> string list"
  and scan_entry :: "string list \<Rightarrow> string \<Rightarrow> dir_entry \<Rightarrow> string list" where
  "find_files bl path [] = []"
| "find_files bl path (e # es) = scan_entry bl path e @ find_files bl path es"
| "scan_entry bl path (Dir name entries) =
     (if path_join path name \<notin> set bl then find_files bl (path_join path name) entries else [])"
| "scan_entry bl path (File name) =
     (if filename_extension (path_join path name) \<in> set valid_extensions
      then [path_join path name] else [])"

record dependency_graph =
  root :: string
  base_blacklist :: "string list"
  base_groups :: "string list"
  blacklist :: "string list"
  groups :: "string list"

definition init :: "string list \<Rightarrow> string list \<Rightarrow> string \<Rightarrow> dependency_graph" where
  \<comment> \<open>\<^verbatim>\<open>__init__\<close>, from the two lists of the class as they are at that moment\<close>
  "init bb bg r =
     \<lparr>root = r, base_blacklist = bb, base_groups = bg,
      blacklist = map (path_join r) bb, groups = map (path_join r) bg\<rparr>"

definition run_config :: "string list list \<Rightarrow> string list list \<Rightarrow> dependency_graph \<Rightarrow> dependency_graph" where
  \<comment> \<open>the first part of \<^verbatim>\<open>run\<close>: the arguments of \<^verbatim>\<open>--blacklist\<close> and \<^verbatim>\<open>--group\<close>
      are lists of lists\<close>
  "run_config args_blacklist args_group dg =
     (let added_blacklist = concat args_blacklist;
          bb = base_blacklist dg @ added_blacklist;
          added_groups = concat args_group;
          bg = base_groups dg @ added_groups
      in dg\<lparr>base_blacklist := bb, blacklist := map (path_join (root dg)) bb,
            base_groups := bg, groups := map (path_join (root dg)) bg\<rparr>)"

definition run ::
  "string list list \<Rightarrow> string list list \<Rightarrow> bool \<Rightarrow> (string \<Rightarrow> string) \<Rightarrow> dir_entry list \<Rightarrow>
     dependency_graph \<Rightarrow> digraph \<times> dependency_graph" where
  \<comment> \<open>\<^verbatim>\<open>run\<close> up to the graph it hands to the renderer; \<^verbatim>\<open>tree\<close> is the content of the
      root directory\<close>
  "run args_blacklist args_group args_strict fs tree dg =
     (let dg1 = run_config args_blacklist args_group dg;
          files = find_files (blacklist dg1) (root dg1) tree
      in (create_graph fs (groups dg1) files args_strict, dg1))"

section \<open>The statements each loop appends\<close>

text \<open>
  Views of the loops of \<^verbatim>\<open>create_graph\<close> as lists of statements; the lemmas below show
  that each loop appends exactly these to the body of the graph.
\<close>

definition group_nodes :: "string list \<Rightarrow> string \<Rightarrow> stmt list" where
  "group_nodes gs path =
     map (\<lambda>grp. Node (group_name_of grp) [(''color'', ''lightgreen'')]) (filter (startswith path) gs)"

definition neighbor_stmts ::
  "string set \<Rightarrow> (string \<rightharpoonup> string) \<Rightarrow> string \<Rightarrow> string \<Rightarrow> string \<Rightarrow> stmt list" where
  "neighbor_stmts ns px node color neighbor =
     (if neighbor = node then []
      else if neighbor \<in> ns then [Edge node neighbor [(''dir'', ''back''), (''color'', color)]]
      else (case px neighbor of
              Some proxy \<Rightarrow> [Edge node proxy [(''dir'', ''back''), (''color'', color)]]
            | None \<Rightarrow> []))"

definition file_stmts ::
  "(string \<Rightarrow> string) \<Rightarrow> string set \<Rightarrow> (string \<rightharpoonup> string) \<Rightarrow> string \<Rightarrow> stmt list" where
  "file_stmts fs ns px path =
     Node (filename_normalize path) [] #
     concat (map (neighbor_stmts ns px (filename_normalize path) (edge_color path))
                 (find_neighbors fs path))"

definition folder_stmts ::
  "(string \<Rightarrow> string) \<Rightarrow> string list \<Rightarrow> string set \<Rightarrow> (string \<rightharpoonup> string) \<Rightarrow>
     string \<times> string list \<Rightarrow> stmt list" where
  "folder_stmts fs gs ns px kv =
     (if folder_in_group gs (fst kv) then [] else concat (map (file_stmts fs ns px) (snd kv)))"

section \<open>Concrete trees\<close>

text \<open>The texts of the files of small trees, used to run the builder.\<close>

definition fs_ab :: "string \<Rightarrow> string" where
  \<comment> \<open>\<^verbatim>\<open>a.h\<close> includes \<^verbatim>\<open>"b.h"\<close>; every other file is empty\<close>
  "fs_ab path =
     (if path = ''./a.h'' then ''#include '' @ [CHR 0x22] @ ''b.h'' @ [CHR 0x22, CHR 0x0A]
      else [])"

definition fs_main_x :: "string \<Rightarrow> string" where
  \<comment> \<open>\<^verbatim>\<open>main.c\<close> includes \<^verbatim>\<open>"x.h"\<close>; every other file is empty\<close>
  "fs_main_x path =
     (if path = ''./main.c'' then ''#include '' @ [CHR 0x22] @ ''x.h'' @ [CHR 0x22, CHR 0x0A]
      else [])"

definition include_line :: "string \<Rightarrow> string" where
  \<comment> \<open>the line \<^verbatim>\<open>#include "name"\<close>\<close>
  "include_line name = ''#include '' @ [CHR 0x22] @ name @ [CHR 0x22, CHR 0x0A]"

definition fs_lib :: "string \<Rightarrow> string" where
  \<comment> \<open>\<^verbatim>\<open>lib/x.c\<close> includes \<^verbatim>\<open>"y.h"\<close> and \<^verbatim>\<open>main.c\<close> includes \<^verbatim>\<open>"x.h"\<close>\<close>
  "fs_lib path =
     (if path = ''./lib/x.c'' then include_line ''y.h''
      else if path = ''./main.c'' then include_line ''x.h''
      else [])"

definition fs_lib_empty :: "string \<Rightarrow> string" where
  \<comment> \<open>as \<^verbatim>\<open>fs_lib\<close>, with \<^verbatim>\<open>lib/x.c\<close> empty\<close>
  "fs_lib_empty path = (if path = ''./main.c'' then include_line ''x.h'' else [])"

definition fs_stdio :: "string \<Rightarrow> string" where
  \<comment> \<open>\<^verbatim>\<open>main.c\<close> includes \<^verbatim>\<open><stdio.h>\<close> and then \<^verbatim>\<open>"x.h"\<close>\<close>
  "fs_stdio path =
     (if path = ''./main.c'' then ''#include <stdio.h>'' @ [CHR 0x0A] @ include_line ''x.h''
      else [])"

definition fs_proxy_name :: "string \<Rightarrow> string" where
  \<comment> \<open>\<^verbatim>\<open>a.h\<close> includes a file named like a group proxy\<close>
  "fs_proxy_name path = (if path = ''./a.h'' then include_line ''group - lib.h'' else [])"

definition fs_self :: "string \<Rightarrow> string" where
  \<comment> \<open>a file named like a group proxy includes a member of that group\<close>
  "fs_self path = (if path = ''./group - lib.h'' then include_line ''x.h'' else [])"

definition fs_xy :: "string \<Rightarrow> string" where
  \<comment> \<open>\<^verbatim>\<open>lib/x.h\<close> includes \<^verbatim>\<open>"y.h"\<close>\<close>
  "fs_xy path = (if path = ''./lib/x.h'' then include_line ''y.h'' else [])"

section \<open>The directive as the specification words it\<close>

text \<open>
  A second reading of an include directive, following the words of the specification and
  not the pattern of the source: \<^verbatim>\<open>#include\<close>, whitespace, then a double-quoted string or
  an angle-bracket-delimited token, the delimiters being a pair of the same kind and the
  target the text they enclose. It is compared with \<^const>\<open>findall\<close> below.
\<close>

fun spec_enclosed :: "char \<Rightarrow> string \<Rightarrow> string option" where
  \<comment> \<open>the text up to the closing delimiter \<^verbatim>\<open>q\<close>, on the same line\<close>
  "spec_enclosed q [] = None"
| "spec_enclosed q (c # cs) =
     (if c = q then Some []
      else if c = CHR 0x0A then None
      else map_option ((#) c) (spec_enclosed q cs))"

definition spec_directive_at :: "string \<Rightarrow> string option" where
  "spec_directive_at s =
     (case strip_prefix ''#include'' s of
        None \<Rightarrow> None
      | Some r \<Rightarrow>
          (if takeWhile is_space r = [] then None
           else (case dropWhile is_space r of
                   [] \<Rightarrow> None
                 | c # cs \<Rightarrow>
                     if c = CHR 0x22 then spec_enclosed (CHR 0x22) cs
                     else if c = CHR ''<'' then spec_enclosed (CHR ''>'') cs
                     else None)))"

fun spec_recognized :: "string \<Rightarrow> string option" where
  \<comment> \<open>the target of the first directive a line contains, if it contains one\<close>
  "spec_recognized [] = None"
| "spec_recognized (c # cs) =
     (case spec_directive_at (c # cs) of
        Some t \<Rightarrow> Some t
      | None \<Rightarrow> spec_recognized cs)"

definition line_mixed :: string where
  \<comment> \<open>\<^verbatim>\<open>#include <foo.h"\<close>: opened by an angle bracket, closed by a double quote\<close>
  "line_mixed = ''#include <foo.h'' @ [CHR 0x22]"

definition line_comment :: string where
  \<comment> \<open>\<^verbatim>\<open>#include "a.h" // see "b.h"\<close>\<close>
  "line_comment =
     ''#include '' @ [CHR 0x22] @ ''a.h'' @ [CHR 0x22] @ '' // see '' @ [CHR 0x22] @ ''b.h'' @ [CHR 0x22]"

definition text_two :: string where
  \<comment> \<open>a comment line, a directive whose name stands on the next line, and a second directive\<close>
  "text_two =
     ''// first'' @ [CHR 0x0A] @ ''#include'' @ [CHR 0x0A] @ [CHR 0x22] @ ''a.h'' @ [CHR 0x22] @
     [CHR 0x0A] @ ''#include <b.h>'' @ [CHR 0x0A]"

definition text_cross :: string where
  \<comment> \<open>\<^verbatim>\<open>#include\<close> on one line and \<^verbatim>\<open>"a.h"\<close> on the next\<close>
  "text_cross = ''#include'' @ [CHR 0x0A] @ [CHR 0x22] @ ''a.h'' @ [CHR 0x22]"

definition line_cross1 :: string where
  "line_cross1 = ''#include''"

definition line_cross2 :: string where
  "line_cross2 = [CHR 0x22] @ ''a.h'' @ [CHR 0x22]"

definition fs_main_y :: "string \<Rightarrow> string" where
  \<comment> \<open>\<^verbatim>\<open>main.c\<close> includes \<^verbatim>\<open>"y.h"\<close>; every other file is empty\<close>
  "fs_main_y path = (if path = ''./main.c'' then include_line ''y.h'' else [])"

section \<open>Properties of the loops\<close>

lemmas eval_defs = create_graph_def find_nodes_def register_file_def group_step_def Digraph_def
  dirname_def rstrip_slash_def folder_step_def folder_in_group_def file_step_def
  find_neighbors_def match_at_def is_space_def is_open_def is_close_def filename_normalize_def
  basename_def neighbor_step_def graph_node_def graph_edge_def edge_color_def
  filename_extension_def valid_headers_def valid_sources_def group_name_of_def Let_def

lemma startswith_iff: "startswith s pre \<longleftrightarrow> (\<exists>r. s = pre @ r)"
  by (induction s pre rule: startswith.induct) auto

lemma startswith_prefix: "startswith s pre \<longleftrightarrow> prefix pre s"
  by (simp add: startswith_iff prefix_def)

lemma folder_in_group_iff: "folder_in_group gs folder \<longleftrightarrow> (\<exists>g\<in>set gs. startswith folder g)"
proof -
  have "foldl (\<lambda>in_group grp. if startswith folder grp then True else in_group) b gs
          \<longleftrightarrow> b \<or> (\<exists>g\<in>set gs. startswith folder g)" for b
    by (induction gs arbitrary: b) auto
  then show ?thesis by (simp add: folder_in_group_def)
qed

lemma group_loop_filter:
  "foldl (group_step p) sb gs = foldl (group_step p) sb (filter (startswith p) gs)"
  by (induction gs arbitrary: sb) (simp_all add: group_step_def)

lemma group_loop_nodes:
  "nodes (fst (foldl (group_step p) sb gs)) =
     nodes (fst sb) \<union> group_name_of ` set (filter (startswith p) gs)"
  by (induction gs arbitrary: sb) (auto simp: group_step_def Let_def)

lemma group_loop_flag:
  "snd (foldl (group_step p) sb gs) \<longleftrightarrow> snd sb \<or> filter (startswith p) gs \<noteq> []"
  by (induction gs arbitrary: sb) (auto simp: group_step_def Let_def)

lemma group_loop_proxy:
  "proxy_nodes (fst (foldl (group_step p) sb gs)) =
     (if filter (startswith p) gs = [] then proxy_nodes (fst sb)
      else (proxy_nodes (fst sb))
             (filename_normalize p \<mapsto> group_name_of (last (filter (startswith p) gs))))"
  by (induction gs arbitrary: sb rule: rev_induct) (auto simp: group_step_def Let_def)

lemma group_loop_folders:
  "folder_to_files (fst (foldl (group_step p) sb gs)) = folder_to_files (fst sb)"
  by (induction gs arbitrary: sb) (auto simp: group_step_def Let_def)

lemma group_loop_body:
  "body (graph (fst (foldl (group_step p) sb gs))) = body (graph (fst sb)) @ group_nodes gs p"
  by (induction gs arbitrary: sb) (auto simp: group_step_def Let_def graph_node_def group_nodes_def)

lemma group_loop_strict:
  "strict (graph (fst (foldl (group_step p) sb gs))) = strict (graph (fst sb))"
  by (induction gs arbitrary: sb) (auto simp: group_step_def Let_def graph_node_def)

lemma group_loop_node_attr:
  "node_attr (graph (fst (foldl (group_step p) sb gs))) = node_attr (graph (fst sb))"
  by (induction gs arbitrary: sb) (auto simp: group_step_def Let_def graph_node_def)

lemma register_nodes:
  "nodes (register_file gs st p) =
     nodes st \<union> (if filter (startswith p) gs = [] then {filename_normalize p}
                 else group_name_of ` set (filter (startswith p) gs))"
  by (auto simp: register_file_def Let_def group_loop_nodes group_loop_flag)

lemma register_proxy:
  "proxy_nodes (register_file gs st p) =
     (if filter (startswith p) gs = [] then proxy_nodes st
      else (proxy_nodes st)
             (filename_normalize p \<mapsto> group_name_of (last (filter (startswith p) gs))))"
  by (simp add: register_file_def Let_def group_loop_proxy group_loop_flag)

lemma register_folders:
  "folder_to_files (register_file gs st p) = append_to (dirname p) p (folder_to_files st)"
  by (simp add: register_file_def Let_def group_loop_folders)

lemma register_body:
  "body (graph (register_file gs st p)) = body (graph st) @ group_nodes gs p"
  by (simp add: register_file_def Let_def group_loop_body)

lemma register_strict: "strict (graph (register_file gs st p)) = strict (graph st)"
  by (simp add: register_file_def Let_def group_loop_strict)

lemma register_node_attr: "node_attr (graph (register_file gs st p)) = node_attr (graph st)"
  by (simp add: register_file_def Let_def group_loop_node_attr)

lemma find_nodes_snoc:
  "find_nodes gs g (files @ [p]) = register_file gs (find_nodes gs g files) p"
  by (simp add: find_nodes_def)

lemma find_nodes_Nil:
  "find_nodes gs g [] = \<lparr>nodes = {}, proxy_nodes = Map.empty, folder_to_files = [], graph = g\<rparr>"
  by (simp add: find_nodes_def)

lemma find_nodes_body:
  "body (graph (find_nodes gs g files)) = body g @ concat (map (group_nodes gs) files)"
  by (induction files rule: rev_induct) (simp_all add: find_nodes_snoc find_nodes_Nil register_body)

lemma find_nodes_strict: "strict (graph (find_nodes gs g files)) = strict g"
  by (induction files rule: rev_induct) (simp_all add: find_nodes_snoc find_nodes_Nil register_strict)

lemma find_nodes_node_attr: "node_attr (graph (find_nodes gs g files)) = node_attr g"
  by (induction files rule: rev_induct) (simp_all add: find_nodes_snoc find_nodes_Nil register_node_attr)

lemma neighbor_step_body:
  "neighbor_step ns px node color g n = g\<lparr>body := body g @ neighbor_stmts ns px node color n\<rparr>"
  by (simp add: neighbor_step_def neighbor_stmts_def graph_edge_def split: option.splits)

lemma neighbor_loop_body:
  "foldl (neighbor_step ns px node color) g nbrs =
     g\<lparr>body := body g @ concat (map (neighbor_stmts ns px node color) nbrs)\<rparr>"
  by (induction nbrs arbitrary: g) (simp_all add: neighbor_step_body)

lemma file_step_body: "file_step fs ns px g p = g\<lparr>body := body g @ file_stmts fs ns px p\<rparr>"
  by (simp add: file_step_def Let_def neighbor_loop_body graph_node_def file_stmts_def)

lemma file_loop_body:
  "foldl (file_step fs ns px) g ps = g\<lparr>body := body g @ concat (map (file_stmts fs ns px) ps)\<rparr>"
  by (induction ps arbitrary: g) (simp_all add: file_step_body)

lemma folder_step_body:
  "folder_step fs gs ns px g kv = g\<lparr>body := body g @ folder_stmts fs gs ns px kv\<rparr>"
  by (simp add: folder_step_def folder_stmts_def file_loop_body)

lemma folder_loop_body:
  "foldl (folder_step fs gs ns px) g kvs =
     g\<lparr>body := body g @ concat (map (folder_stmts fs gs ns px) kvs)\<rparr>"
  by (induction kvs arbitrary: g) (simp_all add: folder_step_body)

lemma find_nodes_nodes:
  "nodes (find_nodes gs g files) =
     (\<Union>p\<in>set files. if filter (startswith p) gs = [] then {filename_normalize p}
                        else group_name_of ` set (filter (startswith p) gs))"
proof (induction files rule: rev_induct)
  case Nil
  then show ?case by (simp add: find_nodes_Nil)
next
  case (snoc p files)
  show ?case
    unfolding find_nodes_snoc register_nodes snoc.IH
    by (simp only: set_append list.set UN_Un UN_insert UN_empty Un_empty_right) 
qed

lemma find_nodes_nodes_indep: "nodes (find_nodes gs g files) = nodes (find_nodes gs g' files)"
  by (simp add: find_nodes_nodes)

lemma find_nodes_proxy_indep:
  "proxy_nodes (find_nodes gs g files) = proxy_nodes (find_nodes gs g' files)"
proof (induction files rule: rev_induct)
  case Nil
  then show ?case by (simp add: find_nodes_Nil)
next
  case (snoc p files)
  show ?case
    unfolding find_nodes_snoc register_proxy snoc.IH ..
qed

lemma find_nodes_folders_indep:
  "folder_to_files (find_nodes gs g files) = folder_to_files (find_nodes gs' g' files)"
  by (induction files rule: rev_induct)
     (simp_all add: find_nodes_snoc find_nodes_Nil register_folders)

lemma append_to_sound:
  "(k, v) \<in> set (append_to folder path kvs) \<Longrightarrow> q \<in> set v \<Longrightarrow>
     (k = folder \<and> q = path) \<or> (\<exists>v'. (k, v') \<in> set kvs \<and> q \<in> set v')"
proof (induction kvs)
  case Nil
  then show ?case by simp
next
  case (Cons kv kvs)
  obtain k0 v0 where kv: "kv = (k0, v0)" by (cases kv)
  show ?case
  proof (cases "k0 = folder")
    case True
    with Cons.prems kv have "(k, v) = (k0, v0 @ [path]) \<or> (k, v) \<in> set kvs" by simp
    then show ?thesis
    proof
      assume "(k, v) = (k0, v0 @ [path])"
      with Cons.prems(2) True kv show ?thesis by auto
    next
      assume "(k, v) \<in> set kvs"
      with Cons.prems(2) show ?thesis by auto
    qed
  next
    case False
    with Cons.prems kv have "(k, v) = (k0, v0) \<or> (k, v) \<in> set (append_to folder path kvs)"
      by simp
    then show ?thesis
    proof
      assume "(k, v) = (k0, v0)"
      with Cons.prems(2) kv show ?thesis by auto
    next
      assume "(k, v) \<in> set (append_to folder path kvs)"
      from Cons.IH [OF this Cons.prems(2)] show ?thesis by auto
    qed
  qed
qed

lemma folders_sound:
  "(k, v) \<in> set (folder_to_files (find_nodes gs g files)) \<Longrightarrow> q \<in> set v
     \<Longrightarrow> dirname q = k \<and> q \<in> set files"
proof (induction files arbitrary: k v rule: rev_induct)
  case Nil
  then show ?case by (simp add: find_nodes_Nil)
next
  case (snoc p files)
  from snoc.prems have "(k, v) \<in> set (append_to (dirname p) p (folder_to_files (find_nodes gs g files)))"
    by (simp add: find_nodes_snoc register_folders)
  from append_to_sound [OF this snoc.prems(2)] snoc.IH show ?case by auto
qed

lemma create_graph_body:
  "body (create_graph fs gs files s) =
     concat (map (group_nodes gs) files) @
     concat (map (folder_stmts fs gs (nodes (find_nodes gs g files))
                    (proxy_nodes (find_nodes gs g files)))
                 (folder_to_files (find_nodes gs g files)))"
proof -
  define g0 where "g0 = Digraph s [(''color'', ''lightblue2''), (''style'', ''filled'')]"
  have n: "nodes (find_nodes gs g0 files) = nodes (find_nodes gs g files)"
    by (rule find_nodes_nodes_indep)
  have p: "proxy_nodes (find_nodes gs g0 files) = proxy_nodes (find_nodes gs g files)"
    by (rule find_nodes_proxy_indep)
  have f: "folder_to_files (find_nodes gs g0 files) = folder_to_files (find_nodes gs g files)"
    by (rule find_nodes_folders_indep)
  have b: "body g0 = []" by (simp add: g0_def Digraph_def)
  have "body (create_graph fs gs files s) =
          body (graph (find_nodes gs g0 files)) @
          concat (map (folder_stmts fs gs (nodes (find_nodes gs g0 files))
                         (proxy_nodes (find_nodes gs g0 files)))
                      (folder_to_files (find_nodes gs g0 files)))"
    unfolding create_graph_def Let_def folder_loop_body g0_def by simp
  then show ?thesis unfolding n p f find_nodes_body b by simp
qed

lemma create_graph_strict: "strict (create_graph fs gs files s) = s"
  unfolding create_graph_def Let_def folder_loop_body
  by (simp add: find_nodes_strict Digraph_def)

lemma create_graph_node_attr:
  "node_attr (create_graph fs gs files s) = [(''color'', ''lightblue2''), (''style'', ''filled'')]"
  unfolding create_graph_def Let_def folder_loop_body
  by (simp add: find_nodes_node_attr Digraph_def)

lemma edge_in_group_nodes: "Edge t h a \<notin> set (group_nodes gs p)"
  by (auto simp: group_nodes_def)

lemma edge_in_neighbor_stmts:
  "Edge t h a \<in> set (neighbor_stmts ns px node color n) \<longleftrightarrow>
     t = node \<and> a = [(''dir'', ''back''), (''color'', color)] \<and> n \<noteq> node \<and>
     (n \<in> ns \<and> h = n \<or> n \<notin> ns \<and> px n = Some h)"
  by (auto simp: neighbor_stmts_def split: option.splits)

lemma edge_in_file_stmts:
  "Edge t h a \<in> set (file_stmts fs ns px p) \<longleftrightarrow>
     (\<exists>n\<in>set (find_neighbors fs p).
        t = filename_normalize p \<and> a = [(''dir'', ''back''), (''color'', edge_color p)] \<and>
        n \<noteq> filename_normalize p \<and> (n \<in> ns \<and> h = n \<or> n \<notin> ns \<and> px n = Some h))"
  by (auto simp: file_stmts_def edge_in_neighbor_stmts)

lemma takeWhile_rev_all: "c \<notin> set name \<Longrightarrow> takeWhile (\<lambda>x. x \<noteq> c) (rev name) = rev name"
  by (rule takeWhile_eq_all_conv [THEN iffD2]) auto

lemma takeWhile_rev_stop:
  "c \<notin> set name \<Longrightarrow> takeWhile (\<lambda>x. x \<noteq> c) (rev name @ c # ys) = rev name"
  by (induction name rule: rev_induct) auto


lemma basename_plain: "CHR ''/'' \<notin> set name \<Longrightarrow> basename name = name"
  by (simp add: basename_def takeWhile_rev_all)

lemma basename_join: "CHR ''/'' \<notin> set name \<Longrightarrow> basename (d @ ''/'' @ name) = name"
  by (simp add: basename_def takeWhile_rev_stop)

lemma normalize_join:
  "CHR ''/'' \<notin> set name \<Longrightarrow> filename_normalize (d @ ''/'' @ name) = filename_normalize name"
  by (simp add: filename_normalize_def basename_join basename_plain del: append.simps)


lemma split_at_last:
  "xs = rev (dropWhile P (rev xs)) @ rev (takeWhile P (rev xs))"
proof -
  have "rev (dropWhile P (rev xs)) @ rev (takeWhile P (rev xs)) =
          rev (takeWhile P (rev xs) @ dropWhile P (rev xs))"
    by (simp only: rev_append)
  also have "\<dots> = xs" by (simp only: takeWhile_dropWhile_id rev_rev_ident)
  finally show ?thesis by (rule sym)
qed

lemma dirname_startswith: "startswith p (dirname p)"
proof -
  define h where "h = rev (dropWhile (\<lambda>c. c \<noteq> CHR ''/'') (rev p))"
  have p: "p = h @ rev (takeWhile (\<lambda>c. c \<noteq> CHR ''/'') (rev p))"
    unfolding h_def by (rule split_at_last)
  have h: "h = rstrip_slash h @ rev (takeWhile (\<lambda>c. c = CHR ''/'') (rev h))"
    unfolding rstrip_slash_def by (rule split_at_last)
  have "dirname p = h \<or> dirname p = rstrip_slash h"
    by (simp add: dirname_def h_def Let_def)
  then show ?thesis
  proof
    assume "dirname p = h"
    with p show ?thesis unfolding startswith_iff by metis
  next
    assume d: "dirname p = rstrip_slash h"
    from p h have "p = rstrip_slash h @ (rev (takeWhile (\<lambda>c. c = CHR ''/'') (rev h)) @
       rev (takeWhile (\<lambda>c. c \<noteq> CHR ''/'') (rev p)))" by (metis append.assoc)
    with d show ?thesis unfolding startswith_iff by metis
  qed
qed

lemma startswith_trans: "startswith a b \<Longrightarrow> startswith b c \<Longrightarrow> startswith a c"
  by (auto simp: startswith_iff)

lemma folder_covered_path_covered:
  "startswith (dirname p) grp \<Longrightarrow> startswith p grp"
  using dirname_startswith startswith_trans by blast

lemma append_to_complete:
  "\<exists>v. (folder, v) \<in> set (append_to folder path kvs) \<and> path \<in> set v"
proof (induction kvs)
  case Nil
  show ?case by simp
next
  case (Cons kv kvs)
  obtain k0 v0 where kv: "kv = (k0, v0)" by (cases kv)
  show ?case
  proof (cases "k0 = folder")
    case True
    have "(folder, v0 @ [path]) \<in> set (append_to folder path (kv # kvs)) \<and> path \<in> set (v0 @ [path])"
      using True kv by simp
    then show ?thesis ..
  next
    case False
    from Cons.IH obtain v where "(folder, v) \<in> set (append_to folder path kvs)" "path \<in> set v"
      by blast
    then have "(folder, v) \<in> set (append_to folder path (kv # kvs)) \<and> path \<in> set v"
      using False kv by simp
    then show ?thesis ..
  qed
qed

lemma append_to_keeps:
  "(k, v) \<in> set kvs \<Longrightarrow> q \<in> set v \<Longrightarrow>
     \<exists>v'. (k, v') \<in> set (append_to folder path kvs) \<and> q \<in> set v'"
proof (induction kvs)
  case Nil
  then show ?case by simp
next
  case (Cons kv kvs)
  obtain k0 v0 where kv: "kv = (k0, v0)" by (cases kv)
  show ?case
  proof (cases "(k, v) = kv")
    case True
    show ?thesis
    proof (cases "k0 = folder")
      case True
      with \<open>(k, v) = kv\<close> kv Cons.prems(2)
      have "(k, v0 @ [path]) \<in> set (append_to folder path (kv # kvs)) \<and> q \<in> set (v0 @ [path])"
        by simp
      then show ?thesis ..
    next
      case False
      with \<open>(k, v) = kv\<close> kv Cons.prems(2)
      have "(k, v) \<in> set (append_to folder path (kv # kvs)) \<and> q \<in> set v"
        by simp
      then show ?thesis ..
    qed
  next
    case False
    with Cons.prems have "(k, v) \<in> set kvs" by simp
    from Cons.IH [OF this Cons.prems(2)] obtain v'
      where v': "(k, v') \<in> set (append_to folder path kvs)" "q \<in> set v'" by blast
    show ?thesis
    proof (cases "k0 = folder")
      case True
      from \<open>(k, v) \<in> set kvs\<close> Cons.prems(2) True kv
      have "(k, v) \<in> set (append_to folder path (kv # kvs)) \<and> q \<in> set v" by simp
      then show ?thesis ..
    next
      case False
      with v' kv have "(k, v') \<in> set (append_to folder path (kv # kvs)) \<and> q \<in> set v'" by simp
      then show ?thesis ..
    qed
  qed
qed

lemma folders_complete:
  "p \<in> set files \<Longrightarrow>
     \<exists>v. (dirname p, v) \<in> set (folder_to_files (find_nodes gs g files)) \<and> p \<in> set v"
proof (induction files rule: rev_induct)
  case Nil
  then show ?case by simp
next
  case (snoc q files)
  show ?case
  proof (cases "p = q")
    case True
    then show ?thesis
      by (simp add: find_nodes_snoc register_folders append_to_complete)
  next
    case False
    with snoc obtain v where "(dirname p, v) \<in> set (folder_to_files (find_nodes gs g files))"
      and "p \<in> set v" by auto
    from append_to_keeps [OF this] show ?thesis
      by (simp add: find_nodes_snoc register_folders)
  qed
qed

lemma edge_in_create_graph:
  "Edge t h a \<in> set (body (create_graph fs gs files s)) \<longleftrightarrow>
     (\<exists>p\<in>set files. \<not> folder_in_group gs (dirname p) \<and> Edge t h a \<in> set (file_stmts fs
         (nodes (find_nodes gs g files)) (proxy_nodes (find_nodes gs g files)) p))"
  (is "?L \<longleftrightarrow> ?R")
proof
  assume ?L
  then obtain kv where kv: "kv \<in> set (folder_to_files (find_nodes gs g files))"
    and e: "Edge t h a \<in> set (folder_stmts fs gs (nodes (find_nodes gs g files))
              (proxy_nodes (find_nodes gs g files)) kv)"
    unfolding create_graph_body [of fs gs files s g] by (auto simp: edge_in_group_nodes)
  from e have ng: "\<not> folder_in_group gs (fst kv)"
    by (auto simp: folder_stmts_def split: if_splits)
  with e obtain p where p: "p \<in> set (snd kv)"
    and ep: "Edge t h a \<in> set (file_stmts fs (nodes (find_nodes gs g files))
              (proxy_nodes (find_nodes gs g files)) p)"
    by (auto simp: folder_stmts_def)
  from kv have "(fst kv, snd kv) \<in> set (folder_to_files (find_nodes gs g files))" by simp
  from folders_sound [OF this p] have dp: "dirname p = fst kv" and pf: "p \<in> set files" by auto
  from ng dp have "\<not> folder_in_group gs (dirname p)" by simp
  from this ep have "\<not> folder_in_group gs (dirname p) \<and> Edge t h a \<in> set (file_stmts fs
         (nodes (find_nodes gs g files)) (proxy_nodes (find_nodes gs g files)) p)" ..
  with pf show ?R ..
next
  assume ?R
  then obtain p where p: "p \<in> set files" and ng: "\<not> folder_in_group gs (dirname p)"
    and ep: "Edge t h a \<in> set (file_stmts fs (nodes (find_nodes gs g files))
              (proxy_nodes (find_nodes gs g files)) p)" by blast
  from folders_complete [OF p, of gs g] obtain v
    where kv: "(dirname p, v) \<in> set (folder_to_files (find_nodes gs g files))" and pv: "p \<in> set v"
    by blast
  from ng ep pv have "Edge t h a \<in> set (folder_stmts fs gs (nodes (find_nodes gs g files))
              (proxy_nodes (find_nodes gs g files)) (dirname p, v))"
    by (auto simp: folder_stmts_def)
  with kv show ?L unfolding create_graph_body [of fs gs files s g] by auto
qed




lemma find_nodes_append_snoc:
  "find_nodes gs g (xs @ ys @ [y]) = register_file gs (find_nodes gs g (xs @ ys)) y"
  using find_nodes_snoc [of gs g "xs @ ys" y] by simp

lemma proxy_kept_by_later_files:
  "(\<forall>q\<in>set later. filename_normalize q \<noteq> k \<or> filter (startswith q) gs = []) \<Longrightarrow>
     proxy_nodes (find_nodes gs g (earlier @ later)) k = proxy_nodes (find_nodes gs g earlier) k"
proof (induction later rule: rev_induct)
  case Nil
  then show ?case by simp
next
  case (snoc y ys)
  then have ih: "proxy_nodes (find_nodes gs g (earlier @ ys)) k = proxy_nodes (find_nodes gs g earlier) k"
    by simp
  from snoc.prems have y: "filename_normalize y \<noteq> k \<or> filter (startswith y) gs = []" by simp
  show ?case
    unfolding find_nodes_append_snoc register_proxy using y ih by auto
qed

lemma eval_two_groups:
  "filter (startswith ''./lib/sub/x.h'') [''./lib'', ''./lib/sub''] = [''./lib'', ''./lib/sub'']"
  "group_name_of ''./lib/sub'' = ''group - sub''"
  "group_name_of ''./lib'' = ''group - lib''"
  "filename_normalize ''./lib/sub/x.h'' = ''x''"
  by (simp_all add: group_name_of_def filename_normalize_def basename_def)

lemma eval_main: "filename_normalize ''./main.c'' = ''main''"
  by (simp add: filename_normalize_def basename_def)

lemma eval_first_group_cex:
  "body (create_graph fs_main_x [''./lib'', ''./lib/sub''] [''./lib/sub/x.h'', ''./main.c''] False) =
     [Node ''group - lib'' [(''color'', ''lightgreen'')],
      Node ''group - sub'' [(''color'', ''lightgreen'')],
      Node ''main'' [],
      Edge ''main'' ''group - sub'' [(''dir'', ''back''), (''color'', ''blue'')]]"
  by (simp add: eval_defs fs_main_x_def)

lemma group_loop_cong:
  assumes "filter (startswith p) gs = filter (startswith p) gs'"
  shows "foldl (group_step p) sb gs = foldl (group_step p) sb gs'"
proof -
  have "foldl (group_step p) sb gs = foldl (group_step p) sb (filter (startswith p) gs)"
    by (rule group_loop_filter)
  also have "\<dots> = foldl (group_step p) sb (filter (startswith p) gs')"
    by (simp only: assms)
  also have "\<dots> = foldl (group_step p) sb gs'"
    by (rule group_loop_filter [symmetric])
  finally show ?thesis .
qed

lemma register_file_cong:
  "filter (startswith p) gs = filter (startswith p) gs' \<Longrightarrow>
     register_file gs st p = register_file gs' st p"
  unfolding register_file_def by (simp only: group_loop_cong [of p gs gs'])

lemma find_nodes_cong:
  "(\<forall>p\<in>set files. filter (startswith p) gs = filter (startswith p) gs') \<Longrightarrow>
     find_nodes gs g files = find_nodes gs' g files"
proof (induction files rule: rev_induct)
  case Nil
  show ?case by (simp add: find_nodes_Nil)
next
  case (snoc p files)
  then have ih: "find_nodes gs g files = find_nodes gs' g files"
    and m: "filter (startswith p) gs = filter (startswith p) gs'" by simp_all
  show ?case
    unfolding find_nodes_snoc ih by (rule register_file_cong [OF m])
qed

lemma folder_stmts_cong:
  assumes kv: "kv \<in> set (folder_to_files (find_nodes gs0 g files))"
    and fg: "\<forall>p\<in>set files. folder_in_group gs (dirname p) = folder_in_group gs' (dirname p)"
  shows "folder_stmts fs gs ns px kv = folder_stmts fs gs' ns px kv"
proof (cases "snd kv")
  case Nil
  then show ?thesis by (simp add: folder_stmts_def)
next
  case (Cons p ps)
  then have p: "p \<in> set (snd kv)" by simp
  from kv have "(fst kv, snd kv) \<in> set (folder_to_files (find_nodes gs0 g files))" by simp
  from folders_sound [OF this p] have "dirname p = fst kv" "p \<in> set files" by simp_all
  with fg have "folder_in_group gs (fst kv) = folder_in_group gs' (fst kv)" by auto
  then show ?thesis by (simp add: folder_stmts_def)
qed

lemma create_graph_cong:
  assumes m: "\<forall>p\<in>set files. filter (startswith p) gs = filter (startswith p) gs'"
    and fg: "\<forall>p\<in>set files. folder_in_group gs (dirname p) = folder_in_group gs' (dirname p)"
  shows "create_graph fs gs files s = create_graph fs gs' files s"
proof (rule digraph.equality)
  define g :: digraph where "g = Digraph s []"
  have fn: "find_nodes gs g files = find_nodes gs' g files"
    using m by (rule find_nodes_cong)
  have gn: "map (group_nodes gs) files = map (group_nodes gs') files"
    using m by (simp add: group_nodes_def)
  have fo: "map (folder_stmts fs gs (nodes (find_nodes gs' g files))
                    (proxy_nodes (find_nodes gs' g files)))
                 (folder_to_files (find_nodes gs' g files)) =
            map (folder_stmts fs gs' (nodes (find_nodes gs' g files))
                    (proxy_nodes (find_nodes gs' g files)))
                 (folder_to_files (find_nodes gs' g files))"
    using folder_stmts_cong [OF _ fg] by (simp cong: map_cong)
  show "body (create_graph fs gs files s) = body (create_graph fs gs' files s)"
    unfolding create_graph_body [of fs _ files s g] fn gn fo ..
  show "strict (create_graph fs gs files s) = strict (create_graph fs gs' files s)"
    by (simp add: create_graph_strict)
  show "node_attr (create_graph fs gs files s) = node_attr (create_graph fs gs' files s)"
    by (simp add: create_graph_node_attr)
qed simp

lemma proxy_node_in_create_graph:
  "Node n [(''color'', ''lightgreen'')] \<in> set (body (create_graph fs gs files s)) \<longleftrightarrow>
     (\<exists>grp\<in>set gs. \<exists>p\<in>set files. startswith p grp \<and> n = group_name_of grp)"
proof -
  define g :: digraph where "g = Digraph s []"
  have a: "Node n [(''color'', ''lightgreen'')] \<notin> set (folder_stmts fs gs ns px kv)" for ns px kv
    by (auto simp: folder_stmts_def file_stmts_def neighbor_stmts_def split: option.splits if_splits)
  have b: "Node n [(''color'', ''lightgreen'')] \<in> set (group_nodes gs p) \<longleftrightarrow>
        (\<exists>grp\<in>set gs. startswith p grp \<and> n = group_name_of grp)" for p
    by (auto simp: group_nodes_def)
  show ?thesis
    unfolding create_graph_body [of fs gs files s g] by (auto simp: a b)
qed

lemma eval_unmatched:
  "\<not> startswith ''./main.c'' ''./lib''" "\<not> startswith ''./src/x.h'' ''./lib''"
  by simp_all

lemma eval_unmatched_graph:
  "body (create_graph fs_main_x [''./src''] [''./src/x.h'', ''./main.c''] False) =
     [Node ''group - src'' [(''color'', ''lightgreen'')], Node ''main'' [],
      Edge ''main'' ''group - src'' [(''dir'', ''back''), (''color'', ''blue'')]]"
  by (simp add: eval_defs fs_main_x_def)

lemmas input_defs = include_line_def fs_lib_def fs_lib_empty_def fs_stdio_def fs_proxy_name_def
  fs_self_def fs_xy_def fs_main_x_def fs_ab_def

lemma file_stmts_cong: "fs p = fs' p \<Longrightarrow> file_stmts fs ns px p = file_stmts fs' ns px p"
  by (simp add: file_stmts_def find_neighbors_def)

lemma folder_stmts_fs_cong:
  assumes kv: "kv \<in> set (folder_to_files (find_nodes gs g files))"
    and eq: "\<forall>p\<in>set files. \<not> folder_in_group gs (dirname p) \<longrightarrow> fs p = fs' p"
  shows "folder_stmts fs gs ns px kv = folder_stmts fs' gs ns px kv"
proof (cases "folder_in_group gs (fst kv)")
  case True
  then show ?thesis by (simp add: folder_stmts_def)
next
  case False
  have "file_stmts fs ns px p = file_stmts fs' ns px p" if p: "p \<in> set (snd kv)" for p
  proof -
    from kv have "(fst kv, snd kv) \<in> set (folder_to_files (find_nodes gs g files))" by simp
    from folders_sound [OF this p] have "dirname p = fst kv" "p \<in> set files" by simp_all
    with False eq have "fs p = fs' p" by auto
    then show ?thesis by (rule file_stmts_cong)
  qed
  then have "map (file_stmts fs ns px) (snd kv) = map (file_stmts fs' ns px) (snd kv)"
    by simp
  then have "concat (map (file_stmts fs ns px) (snd kv)) = concat (map (file_stmts fs' ns px) (snd kv))"
    by (rule arg_cong)
  then show ?thesis unfolding folder_stmts_def by simp
qed

lemma create_graph_fs_cong:
  assumes eq: "\<forall>p\<in>set files. \<not> folder_in_group gs (dirname p) \<longrightarrow> fs p = fs' p"
  shows "create_graph fs gs files s = create_graph fs' gs files s"
proof (rule digraph.equality)
  define g :: digraph where "g = Digraph s []"
  have fo: "map (folder_stmts fs gs (nodes (find_nodes gs g files))
                    (proxy_nodes (find_nodes gs g files)))
                 (folder_to_files (find_nodes gs g files)) =
            map (folder_stmts fs' gs (nodes (find_nodes gs g files))
                    (proxy_nodes (find_nodes gs g files)))
                 (folder_to_files (find_nodes gs g files))"
    using folder_stmts_fs_cong [OF _ eq] by (simp cong: map_cong)
  show "body (create_graph fs gs files s) = body (create_graph fs' gs files s)"
    unfolding create_graph_body [of _ gs files s g] fo ..
  show "strict (create_graph fs gs files s) = strict (create_graph fs' gs files s)"
    by (simp add: create_graph_strict)
  show "node_attr (create_graph fs gs files s) = node_attr (create_graph fs' gs files s)"
    by (simp add: create_graph_node_attr)
qed simp

lemma eval_lib_dirs:
  "dirname ''./lib/x.c'' = ''./lib''" "dirname ''./lib/y.h'' = ''./lib''"
  "dirname ''./main.c'' = ''.''"
  by (simp_all add: dirname_def rstrip_slash_def)

lemma eval_lib_empty_graph:
  "body (create_graph fs_lib_empty [''./lib''] [''./lib/x.c'', ''./lib/y.h'', ''./main.c''] False) =
     [Node ''group - lib'' [(''color'', ''lightgreen'')],
      Node ''group - lib'' [(''color'', ''lightgreen'')],
      Node ''main'' [],
      Edge ''main'' ''group - lib'' [(''dir'', ''back''), (''color'', ''blue'')]]"
  by (simp add: eval_defs input_defs)

lemma neighbor_stmts_unresolved:
  "n \<notin> ns \<Longrightarrow> px n = None \<Longrightarrow> neighbor_stmts ns px node color n = []"
  by (simp add: neighbor_stmts_def)

lemma neighbor_stmts_filter:
  "concat (map (neighbor_stmts ns px node color) (filter (\<lambda>n. n \<in> ns \<or> px n \<noteq> None) nbrs)) =
   concat (map (neighbor_stmts ns px node color) nbrs)"
  by (induction nbrs) (auto simp: neighbor_stmts_unresolved)

lemma file_stmts_filter:
  "find_neighbors fs' p = filter (\<lambda>n. n \<in> ns \<or> px n \<noteq> None) (find_neighbors fs p) \<Longrightarrow>
     file_stmts fs' ns px p = file_stmts fs ns px p"
  unfolding file_stmts_def by (simp only: neighbor_stmts_filter)

lemma folder_stmts_filter:
  assumes "\<forall>p. find_neighbors fs' p = filter (\<lambda>n. n \<in> ns \<or> px n \<noteq> None) (find_neighbors fs p)"
  shows "folder_stmts fs' gs ns px kv = folder_stmts fs gs ns px kv"
proof -
  have "file_stmts fs' ns px p = file_stmts fs ns px p" for p
    using assms [THEN spec, of p] by (rule file_stmts_filter)
  then have "file_stmts fs' ns px = file_stmts fs ns px" by (rule ext)
  then show ?thesis unfolding folder_stmts_def by (simp only:)
qed

lemma create_graph_filter:
  assumes "\<forall>p. find_neighbors fs' p =
             filter (\<lambda>n. n \<in> nodes (find_nodes gs g files) \<or> proxy_nodes (find_nodes gs g files) n \<noteq> None)
                    (find_neighbors fs p)"
  shows "create_graph fs' gs files s = create_graph fs gs files s"
proof (rule digraph.equality)
  have "folder_stmts fs' gs (nodes (find_nodes gs g files)) (proxy_nodes (find_nodes gs g files)) =
        folder_stmts fs gs (nodes (find_nodes gs g files)) (proxy_nodes (find_nodes gs g files))"
    using folder_stmts_filter [OF assms] by (rule ext)
  then show "body (create_graph fs' gs files s) = body (create_graph fs gs files s)"
    unfolding create_graph_body [of _ gs files s g] by simp
  show "strict (create_graph fs' gs files s) = strict (create_graph fs gs files s)"
    by (simp add: create_graph_strict)
  show "node_attr (create_graph fs' gs files s) = node_attr (create_graph fs gs files s)"
    by (simp add: create_graph_node_attr)
qed simp

lemma eval_stdio_state:
  "nodes (find_nodes [''./lib''] (Digraph False []) [''./lib/x.h'', ''./main.c'']) = {''group - lib'', ''main''}"
  "proxy_nodes (find_nodes [''./lib''] (Digraph False []) [''./lib/x.h'', ''./main.c'']) =
     [''x'' \<mapsto> ''group - lib'']"
  by (simp_all add: eval_defs insert_commute)

lemma eval_stdio_neighbors:
  "find_neighbors fs_stdio ''./main.c'' = [''stdio'', ''x'']"
  by (simp add: eval_defs input_defs)

lemma eval_stdio_filter:
  "find_neighbors fs_main_x p =
     filter (\<lambda>n. n \<in> {''group - lib'', ''main''} \<or> [''x'' \<mapsto> ''group - lib''] n \<noteq> None)
            (find_neighbors fs_stdio p)"
  by (simp add: eval_defs input_defs)

lemma eval_main_x_graph:
  "body (create_graph fs_main_x [''./lib''] [''./lib/x.h'', ''./main.c''] False) =
     [Node ''group - lib'' [(''color'', ''lightgreen'')], Node ''main'' [],
      Edge ''main'' ''group - lib'' [(''dir'', ''back''), (''color'', ''blue'')]]"
  by (simp add: eval_defs input_defs)

lemma eval_proxy_name_graph:
  "body (create_graph fs_proxy_name [''./lib''] [''./lib/x.h'', ''./a.h''] False) =
     [Node ''group - lib'' [(''color'', ''lightgreen'')], Node ''a'' [],
      Edge ''a'' ''group - lib'' [(''dir'', ''back''), (''color'', ''red'')]]"
  by (simp add: eval_defs input_defs)

lemma eval_proxy_name:
  "find_neighbors fs_proxy_name ''./a.h'' = [''group - lib'']"
  "filename_normalize ''./a.h'' = ''a''" "filename_normalize ''./lib/x.h'' = ''x''"
  by (simp_all add: eval_defs input_defs)

lemma edge_set_iff: "(t, h) \<in> edge_set gr \<longleftrightarrow> (\<exists>a. Edge t h a \<in> set (body gr))"
proof -
  have "(t, h) \<in> set (edge_ends x) \<longleftrightarrow> (\<exists>a. x = Edge t h a)" for x
    by (cases x) auto
  then show ?thesis by (auto simp: edge_set_def)
qed

lemma proxy_value_origin:
  "proxy_nodes (find_nodes gs g files) k = Some v \<Longrightarrow>
     \<exists>grp\<in>set gs. \<exists>p\<in>set files. startswith p grp \<and> v = group_name_of grp \<and> k = filename_normalize p"
proof (induction files arbitrary: k v rule: rev_induct)
  case Nil
  then show ?case by (simp add: find_nodes_Nil)
next
  case (snoc q files)
  let ?m = "filter (startswith q) gs"
  show ?case
  proof (cases "?m \<noteq> [] \<and> k = filename_normalize q")
    case True
    with snoc.prems have v: "v = group_name_of (last ?m)"
      by (simp add: find_nodes_snoc register_proxy)
    from True have "?m \<noteq> []" by (rule conjunct1)
    then have "last ?m \<in> set ?m" by (rule last_in_set)
    then have "last ?m \<in> {x \<in> set gs. startswith q x}" by (simp only: set_filter)
    then have "last ?m \<in> set gs \<and> startswith q (last ?m)" by (rule CollectD)
    with v True show ?thesis by auto
  next
    case False
    with snoc.prems have "proxy_nodes (find_nodes gs g files) k = Some v"
      by (auto simp: find_nodes_snoc register_proxy split: if_splits)
    from snoc.IH [OF this] show ?thesis by auto
  qed
qed

lemma group_name_prefix: "startswith (group_name_of grp) ''group - ''"
  by (simp add: group_name_of_def)

lemma eval_self_graph:
  "body (create_graph fs_self [''./lib''] [''./lib/x.h'', ''./group - lib.h''] False) =
     [Node ''group - lib'' [(''color'', ''lightgreen'')], Node ''group - lib'' [],
      Edge ''group - lib'' ''group - lib'' [(''dir'', ''back''), (''color'', ''red'')]]"
  by (simp add: eval_defs input_defs)

lemma eval_lib_scenario_graph:
  "body (create_graph fs_lib [''./lib''] [''./lib/x.c'', ''./lib/y.h'', ''./main.c''] False) =
     [Node ''group - lib'' [(''color'', ''lightgreen'')],
      Node ''group - lib'' [(''color'', ''lightgreen'')],
      Node ''main'' [],
      Edge ''main'' ''group - lib'' [(''dir'', ''back''), (''color'', ''blue'')]]"
  by (simp add: eval_defs input_defs)

lemma eval_lib_names:
  "filename_normalize ''./lib/x.c'' = ''x''" "filename_normalize ''./lib/y.h'' = ''y''"
  "filename_normalize ''./main.c'' = ''main''"
  by (simp_all add: filename_normalize_def basename_def)

lemma find_files_set_cong:
  "set bl = set bl' \<Longrightarrow> find_files bl path es = find_files bl' path es"
  "set bl = set bl' \<Longrightarrow> scan_entry bl path e = scan_entry bl' path e"
  by (induction bl path es and bl path e rule: find_files_scan_entry.induct) simp_all

lemma last_filter_doubled:
  "last (filter P (xs @ es @ es)) = last (filter P (xs @ es))"
  by (cases "filter P es = []") simp_all

lemma filter_set_cong:
  "set gs' = set gs \<Longrightarrow> (filter P gs' = []) = (filter P gs = [])"
  by (simp add: filter_empty_conv)

lemma find_nodes_nodes_same:
  assumes "set gs' = set gs"
  shows "nodes (find_nodes gs' g files) = nodes (find_nodes gs g files)"
  unfolding find_nodes_nodes set_filter filter_set_cong [OF assms] assms ..

lemma find_nodes_proxy_same:
  assumes s: "set gs' = set gs"
    and l: "\<And>p. last (filter (startswith p) gs') = last (filter (startswith p) gs)"
  shows "proxy_nodes (find_nodes gs' g files) = proxy_nodes (find_nodes gs g files)"
proof (induction files rule: rev_induct)
  case Nil
  show ?case by (simp add: find_nodes_Nil)
next
  case (snoc p files)
  show ?case
    unfolding find_nodes_snoc register_proxy snoc.IH l filter_set_cong [OF s] ..
qed

lemma group_nodes_set:
  "set gs' = set gs \<Longrightarrow> set (group_nodes gs' p) = set (group_nodes gs p)"
  by (simp add: group_nodes_def)

lemma group_nodes_no_edge: "filter (\<lambda>s. edge_ends s \<noteq> []) (group_nodes gs p) = []"
  by (simp add: group_nodes_def filter_empty_conv)

lemma group_nodes_all_no_edge:
  "filter (\<lambda>s. edge_ends s \<noteq> []) (concat (map (group_nodes gs) files)) = []"
  by (induction files) (simp_all add: group_nodes_no_edge)

lemma folder_stmts_groups_cong:
  "set gs' = set gs \<Longrightarrow> folder_stmts fs gs' ns px kv = folder_stmts fs gs ns px kv"
  by (simp add: folder_stmts_def folder_in_group_iff)

lemma create_graph_same_sets:
  assumes s: "set gs' = set gs"
    and l: "\<And>p. last (filter (startswith p) gs') = last (filter (startswith p) gs)"
  shows "set (body (create_graph fs gs' files st)) = set (body (create_graph fs gs files st))"
    and "edges_of (create_graph fs gs' files st) = edges_of (create_graph fs gs files st)"
proof -
  define g :: digraph where "g = Digraph st []"
  have n: "nodes (find_nodes gs' g files) = nodes (find_nodes gs g files)"
    using s by (rule find_nodes_nodes_same)
  have p: "proxy_nodes (find_nodes gs' g files) = proxy_nodes (find_nodes gs g files)"
    using s l by (rule find_nodes_proxy_same)
  have f: "folder_to_files (find_nodes gs' g files) = folder_to_files (find_nodes gs g files)"
    by (rule find_nodes_folders_indep)
  have fo: "folder_stmts fs gs' ns px = folder_stmts fs gs ns px" for ns px
    using folder_stmts_groups_cong [OF s] by (rule ext)
  have b': "body (create_graph fs gs' files st) =
      concat (map (group_nodes gs') files) @
      concat (map (folder_stmts fs gs (nodes (find_nodes gs g files))
                    (proxy_nodes (find_nodes gs g files)))
                 (folder_to_files (find_nodes gs g files)))"
    unfolding create_graph_body [of fs gs' files st g] n p f fo ..
  have b: "body (create_graph fs gs files st) =
      concat (map (group_nodes gs) files) @
      concat (map (folder_stmts fs gs (nodes (find_nodes gs g files))
                    (proxy_nodes (find_nodes gs g files)))
                 (folder_to_files (find_nodes gs g files)))"
    by (rule create_graph_body)
  have "set (concat (map (group_nodes gs') files)) = set (concat (map (group_nodes gs) files))"
    using group_nodes_set [OF s] by simp
  then show "set (body (create_graph fs gs' files st)) = set (body (create_graph fs gs files st))"
    unfolding b' b by simp
  show "edges_of (create_graph fs gs' files st) = edges_of (create_graph fs gs files st)"
    unfolding edges_of_def b' b by (simp add: group_nodes_all_no_edge)
qed

lemma edge_set_from_body: "set (body g') = set (body gr) \<Longrightarrow> edge_set g' = edge_set gr"
  by (simp add: edge_set_def)

lemma declared_from_body: "set (body g') = set (body gr) \<Longrightarrow> declared_nodes g' = declared_nodes gr"
  by (simp add: declared_nodes_def)

lemma run_twice:
  assumes r1: "run ab ag st fs tree dg = (g1, dg1)"
    and r2: "run ab ag st fs tree dg1 = (g2, dg2)"
  shows "set (body g2) = set (body g1)" and "edges_of g2 = edges_of g1"
proof -
  let ?J = "path_join (root dg)"
  let ?X = "map ?J (base_groups dg)" and ?E = "map ?J (concat ag)"
  let ?B = "map ?J (base_blacklist dg @ concat ab)"
  let ?files = "find_files ?B (root dg) tree"
  from r1 have dg1: "dg1 = run_config ab ag dg"
    and g1: "g1 = create_graph fs (?X @ ?E) ?files st"
    by (auto simp: run_def run_config_def Let_def)
  have root1: "root dg1 = root dg" by (simp add: dg1 run_config_def Let_def)
  have bl: "set (blacklist (run_config ab ag dg1)) = set ?B"
    by (auto simp: dg1 run_config_def Let_def)
  have files2: "find_files (blacklist (run_config ab ag dg1)) (root dg) tree = ?files"
    using bl by (rule find_files_set_cong)
  have gs2: "groups (run_config ab ag dg1) = ?X @ ?E @ ?E"
    by (simp add: dg1 run_config_def Let_def)
  have root2: "root (run_config ab ag dg1) = root dg"
    by (simp add: dg1 run_config_def Let_def)
  from r2 have g2: "g2 = create_graph fs (?X @ ?E @ ?E) ?files st"
    unfolding run_def Let_def gs2 root2 files2 by simp
  have s: "set (?X @ ?E @ ?E) = set (?X @ ?E)" by auto
  have l: "last (filter (startswith p) (?X @ ?E @ ?E)) = last (filter (startswith p) (?X @ ?E))" for p
    by (rule last_filter_doubled)
  show "set (body g2) = set (body g1)"
    unfolding g1 g2 using s l by (rule create_graph_same_sets)
  show "edges_of g2 = edges_of g1"
    unfolding g1 g2 using s l by (rule create_graph_same_sets)
qed

lemma eval_run_first:
  "run [] [[''lib'']] False fs_main_x [Dir ''.git'' [File ''c.h''], Dir ''lib'' [File ''x.h''], File ''main.c'']
       (init [''.git'', ''.settings'', ''.vscode''] [] ''.'') =
     (\<lparr>strict = False, node_attr = [(''color'', ''lightblue2''), (''style'', ''filled'')],
       body = [Node ''group - lib'' [(''color'', ''lightgreen'')], Node ''main'' [],
               Edge ''main'' ''group - lib'' [(''dir'', ''back''), (''color'', ''blue'')]]\<rparr>,
      \<lparr>root = ''.'', base_blacklist = [''.git'', ''.settings'', ''.vscode''], base_groups = [''lib''],
       blacklist = [''./.git'', ''./.settings'', ''./.vscode''], groups = [''./lib'']\<rparr>)"
  by (simp add: run_def run_config_def init_def path_join_def valid_extensions_def eval_defs input_defs)

lemma eval_run_second:
  "run [] [[''lib'']] False fs_main_x [Dir ''.git'' [File ''c.h''], Dir ''lib'' [File ''x.h''], File ''main.c'']
      \<lparr>root = ''.'', base_blacklist = [''.git'', ''.settings'', ''.vscode''], base_groups = [''lib''],
       blacklist = [''./.git'', ''./.settings'', ''./.vscode''], groups = [''./lib'']\<rparr> =
     (\<lparr>strict = False, node_attr = [(''color'', ''lightblue2''), (''style'', ''filled'')],
       body = [Node ''group - lib'' [(''color'', ''lightgreen'')],
               Node ''group - lib'' [(''color'', ''lightgreen'')], Node ''main'' [],
               Edge ''main'' ''group - lib'' [(''dir'', ''back''), (''color'', ''blue'')]]\<rparr>,
      \<lparr>root = ''.'', base_blacklist = [''.git'', ''.settings'', ''.vscode''],
       base_groups = [''lib'', ''lib''],
       blacklist = [''./.git'', ''./.settings'', ''./.vscode''], groups = [''./lib'', ''./lib'']\<rparr>)"
  by (simp add: run_def run_config_def init_def path_join_def valid_extensions_def eval_defs input_defs)

lemma strip_prefix_iff: "strip_prefix pre s = Some r \<longleftrightarrow> s = pre @ r"
  by (induction pre s rule: strip_prefix.induct) auto

lemma close_not_newline: "is_close c \<Longrightarrow> c \<noteq> CHR 0x0A"
  by (auto simp: is_close_def)

lemma open_not_space: "is_open c \<Longrightarrow> \<not> is_space c"
  by (auto simp: is_open_def is_space_def)

lemma capture_shape:
  "capture s = Some (t, r) \<Longrightarrow> \<exists>c. s = t @ c # r \<and> is_close c \<and> CHR 0x0A \<notin> set t"
proof (induction s arbitrary: t r)
  case Nil
  then show ?case by simp
next
  case (Cons x xs)
  from Cons.prems have nl: "x \<noteq> CHR 0x0A" by (auto split: if_splits)
  show ?case
  proof (cases "capture xs")
    case None
    with Cons.prems nl have "is_close x" "t = []" "r = xs" by (auto split: if_splits)
    then show ?thesis by simp
  next
    case (Some tr)
    obtain t' r' where tr: "tr = (t', r')" by (cases tr)
    with Some Cons.prems nl have t: "t = x # t'" and r: "r = r'" by auto
    from Cons.IH [of t' r'] Some tr obtain c where "xs = t' @ c # r'" "is_close c" "CHR 0x0A \<notin> set t'"
      by auto
    with t r nl show ?thesis by auto
  qed
qed

lemma capture_some:
  "CHR 0x0A \<notin> set t \<Longrightarrow> is_close c \<Longrightarrow> capture (t @ c # r) \<noteq> None"
  by (induction t) (auto simp: close_not_newline split: option.splits)

lemma capture_none: "(\<forall>x\<in>set s. \<not> is_close x) \<Longrightarrow> capture s = None"
  by (induction s) auto

lemma capture_exact:
  "CHR 0x0A \<notin> set t \<Longrightarrow> (\<forall>x\<in>set t. \<not> is_close x) \<Longrightarrow> is_close c \<Longrightarrow> capture r = None \<Longrightarrow>
     capture (t @ c # r) = Some (t, r)"
  by (induction t) (auto simp: close_not_newline)

lemma match_at_shape:
  assumes "match_at s = Some (t, r)"
  shows "\<exists>ws o' c. s = ''#include'' @ ws @ [o'] @ t @ [c] @ r \<and> ws \<noteq> [] \<and>
           list_all is_space ws \<and> is_open o' \<and> is_close c"
proof -
  from assms obtain r0 o' cs where r0: "strip_prefix ''#include'' s = Some r0"
    and tw: "takeWhile is_space r0 \<noteq> []"
    and dw: "dropWhile is_space r0 = o' # cs" and op: "is_open o'"
    and cap: "capture cs = Some (t, r)"
    by (auto simp: match_at_def split: option.splits if_splits list.splits)
  from capture_shape [OF cap] obtain c where cs: "cs = t @ c # r" and cl: "is_close c" by blast
  have "r0 = takeWhile is_space r0 @ dropWhile is_space r0" by simp
  with dw cs have "r0 = takeWhile is_space r0 @ [o'] @ t @ [c] @ r" by simp
  moreover from r0 have "s = ''#include'' @ r0" by (simp only: strip_prefix_iff)
  ultimately have "s = ''#include'' @ takeWhile is_space r0 @ [o'] @ t @ [c] @ r" by simp
  moreover have "list_all is_space (takeWhile is_space r0)"
    by (simp add: list_all_iff) (meson set_takeWhileD)
  ultimately show ?thesis using tw op cl by blast
qed

lemma match_at_include:
  assumes "ws \<noteq> []" and "list_all is_space ws" and "is_open o'"
  shows "match_at (''#include'' @ ws @ o' # cs) = capture cs"
proof -
  have sp: "strip_prefix ''#include'' (''#include'' @ ws @ o' # cs) = Some (ws @ o' # cs)"
    by (simp only: strip_prefix_iff)
  from assms have a: "\<forall>x\<in>set ws. is_space x" and b: "\<not> is_space o'"
    by (simp_all add: list_all_iff open_not_space)
  from a b have tw: "takeWhile is_space (ws @ o' # cs) = ws"
    by (simp add: takeWhile_append2)
  from a b have dw: "dropWhile is_space (ws @ o' # cs) = o' # cs"
    by (simp add: dropWhile_append2)
  show ?thesis
    using assms(1,3) by (simp add: match_at_def tw dw)
qed

lemma match_at_no_hash: "CHR ''#'' \<noteq> x \<Longrightarrow> match_at (x # s) = None"
  by (simp add: match_at_def)

lemma findall_skip: "CHR ''#'' \<notin> set pre \<Longrightarrow> findall (pre @ s) = findall s"
  by (induction pre) (simp_all add: match_at_no_hash)

lemma findall_found: "match_at s \<noteq> None \<Longrightarrow> findall (pre @ s) \<noteq> []"
proof (induction pre)
  case Nil
  then obtain t r where m: "match_at s = Some (t, r)" by auto
  then have "s \<noteq> []" by (auto simp: match_at_def)
  then obtain c cs where "s = c # cs" by (cases s) auto
  with m show ?case by simp
next
  case (Cons x pre)
  then show ?case by (cases "match_at (x # pre @ s)") auto
qed

lemma findall_nonempty_suffix:
  "findall l \<noteq> [] \<Longrightarrow> \<exists>pre s. l = pre @ s \<and> match_at s \<noteq> None"
proof (induction l)
  case Nil
  then show ?case by simp
next
  case (Cons x xs)
  show ?case
  proof (cases "match_at (x # xs)")
    case None
    with Cons.prems have "findall xs \<noteq> []" by simp
    from Cons.IH [OF this] obtain pre s where "xs = pre @ s" "match_at s \<noteq> None" by blast
    then have "x # xs = (x # pre) @ s \<and> match_at s \<noteq> None" by simp
    then show ?thesis by blast
  next
    case (Some a)
    then have "x # xs = [] @ (x # xs) \<and> match_at (x # xs) \<noteq> None" by simp
    then show ?thesis by blast
  qed
qed

lemma match_at_no_close: "(\<forall>x\<in>set s. \<not> is_close x) \<Longrightarrow> match_at s = None"
proof (rule ccontr)
  assume nc: "\<forall>x\<in>set s. \<not> is_close x" and "match_at s \<noteq> None"
  then obtain t r where "match_at s = Some (t, r)" by auto
  from match_at_shape [OF this] obtain ws o' c where "s = ''#include'' @ ws @ [o'] @ t @ [c] @ r"
    and "is_close c" by blast
  then have "c \<in> set s" "is_close c" by simp_all
  with nc show False by blast
qed

lemma findall_no_close: "(\<forall>x\<in>set s. \<not> is_close x) \<Longrightarrow> findall s = []"
  by (induction s) (simp_all add: match_at_no_close)

lemma eval_line_mixed:
  "findall line_mixed = [''foo.h'']" "spec_recognized line_mixed = None"
  by (simp_all add: line_mixed_def match_at_def spec_directive_at_def is_space_def is_open_def
        is_close_def)

lemma eval_line_comment:
  "findall line_comment = [''a.h'' @ [CHR 0x22] @ '' // see '' @ [CHR 0x22] @ ''b.h'']"
  "spec_recognized line_comment = Some ''a.h''"
  by (simp_all add: line_comment_def match_at_def spec_directive_at_def is_space_def is_open_def
        is_close_def)

lemma capture_none_line:
  "(\<forall>x\<in>set (takeWhile (\<lambda>x. x \<noteq> CHR 0x0A) r). \<not> is_close x) \<Longrightarrow> capture r = None"
  by (induction r) (auto split: if_splits)

lemma match_at_iff:
  "match_at s \<noteq> None \<longleftrightarrow>
     (\<exists>ws o' t c r. s = ''#include'' @ ws @ [o'] @ t @ [c] @ r \<and> ws \<noteq> [] \<and>
        list_all is_space ws \<and> is_open o' \<and> is_close c \<and> CHR 0x0A \<notin> set t)"
proof
  assume "match_at s \<noteq> None"
  then obtain t r where m: "match_at s = Some (t, r)" by auto
  then obtain r0 o' cs where r0: "strip_prefix ''#include'' s = Some r0"
    and tw: "takeWhile is_space r0 \<noteq> []"
    and dw: "dropWhile is_space r0 = o' # cs" and op: "is_open o'"
    and cap: "capture cs = Some (t, r)"
    by (auto simp: match_at_def split: option.splits if_splits list.splits)
  from capture_shape [OF cap] obtain c where cs: "cs = t @ c # r" and cl: "is_close c"
    and nl: "CHR 0x0A \<notin> set t" by blast
  have "r0 = takeWhile is_space r0 @ dropWhile is_space r0" by simp
  with dw cs have "r0 = takeWhile is_space r0 @ [o'] @ t @ [c] @ r" by simp
  moreover from r0 have "s = ''#include'' @ r0" by (simp only: strip_prefix_iff)
  ultimately have "s = ''#include'' @ takeWhile is_space r0 @ [o'] @ t @ [c] @ r" by simp
  moreover have "list_all is_space (takeWhile is_space r0)"
    by (simp add: list_all_iff) (meson set_takeWhileD)
  ultimately show "\<exists>ws o' t c r. s = ''#include'' @ ws @ [o'] @ t @ [c] @ r \<and> ws \<noteq> [] \<and>
        list_all is_space ws \<and> is_open o' \<and> is_close c \<and> CHR 0x0A \<notin> set t"
    using tw op cl nl by blast
next
  assume "\<exists>ws o' t c r. s = ''#include'' @ ws @ [o'] @ t @ [c] @ r \<and> ws \<noteq> [] \<and>
        list_all is_space ws \<and> is_open o' \<and> is_close c \<and> CHR 0x0A \<notin> set t"
  then obtain ws o' t c r where s: "s = ''#include'' @ ws @ [o'] @ t @ [c] @ r"
    and ws: "ws \<noteq> []" "list_all is_space ws" and op: "is_open o'" and cl: "is_close c"
    and nl: "CHR 0x0A \<notin> set t" by blast
  from capture_some [OF nl cl] have "capture (t @ c # r) \<noteq> None" .
  with match_at_include [OF ws op, of "t @ c # r"] s show "match_at s \<noteq> None" by simp
qed

lemma match_at_exact:
  assumes ws: "ws \<noteq> []" "list_all is_space ws" and op: "is_open o'" and cl: "is_close c"
    and nl: "CHR 0x0A \<notin> set t" and t: "\<forall>x\<in>set t. \<not> is_close x"
    and r: "\<forall>x\<in>set (takeWhile (\<lambda>x. x \<noteq> CHR 0x0A) r). \<not> is_close x"
  shows "match_at (''#include'' @ ws @ [o'] @ t @ [c] @ r) = Some (t, r)"
proof -
  have "capture (t @ c # r) = Some (t, r)"
    using nl t cl capture_none_line [OF r] by (rule capture_exact)
  with match_at_include [OF ws op, of "t @ c # r"] show ?thesis by simp
qed

lemma findall_iff: "findall src \<noteq> [] \<longleftrightarrow> (\<exists>pre s. src = pre @ s \<and> match_at s \<noteq> None)"
  using findall_nonempty_suffix findall_found by blast

lemma match_at_rest_suffix: "match_at s = Some (t, r) \<Longrightarrow> \<exists>x. s = x @ r"
proof -
  assume "match_at s = Some (t, r)"
  from match_at_shape [OF this] obtain ws o' c
    where "s = (''#include'' @ ws @ [o'] @ t @ [c]) @ r" by auto
  then show ?thesis by blast
qed

lemma findall_elements:
  "tg \<in> set (findall src) \<Longrightarrow> \<exists>pre s r. src = pre @ s \<and> match_at s = Some (tg, r)"
proof (induction src rule: findall.induct)
  case 1
  then show ?case by simp
next
  case (2 c cs)
  show ?case
  proof (cases "match_at (c # cs)")
    case None
    with "2.prems" have "tg \<in> set (findall cs)" by simp
    from "2.IH"(1) [OF None this] obtain pre s r where "cs = pre @ s" "match_at s = Some (tg, r)"
      by blast
    then have "c # cs = (c # pre) @ s \<and> match_at s = Some (tg, r)" by simp
    then show ?thesis by blast
  next
    case (Some tr)
    obtain t r where tr: "tr = (t, r)" by (cases tr)
    with Some "2.prems" have "tg = t \<or> tg \<in> set (findall r)" by auto
    then show ?thesis
    proof
      assume "tg = t"
      with Some tr have "c # cs = [] @ (c # cs) \<and> match_at (c # cs) = Some (tg, r)" by simp
      then show ?thesis by blast
    next
      assume "tg \<in> set (findall r)"
      from "2.IH"(2) [OF Some tr [symmetric] this] obtain pre s r'
        where p: "r = pre @ s" "match_at s = Some (tg, r')" by blast
      from Some tr have "match_at (c # cs) = Some (t, r)" by simp
      from match_at_rest_suffix [OF this] obtain x where "c # cs = x @ r" by blast
      with p have "c # cs = (x @ pre) @ s \<and> match_at s = Some (tg, r')" by simp
      then show ?thesis by blast
    qed
  qed
qed

lemma findall_leftmost:
  "match_at s = Some (t, r) \<Longrightarrow> (\<forall>a b. pre = a @ b \<and> b \<noteq> [] \<longrightarrow> match_at (b @ s) = None) \<Longrightarrow>
     findall (pre @ s) = t # findall r"
proof (induction pre)
  case Nil
  then have "s \<noteq> []" by (auto simp: match_at_def)
  then obtain c cs where "s = c # cs" by (cases s) auto
  with Nil.prems(1) show ?case by simp
next
  case (Cons x pre)
  have "x # pre = [] @ (x # pre) \<and> x # pre \<noteq> []" by simp
  with Cons.prems(2) have n: "match_at ((x # pre) @ s) = None" by blast
  have "\<forall>a b. pre = a @ b \<and> b \<noteq> [] \<longrightarrow> match_at (b @ s) = None"
  proof (intro allI impI)
    fix a b assume "pre = a @ b \<and> b \<noteq> []"
    then have "x # pre = (x # a) @ b \<and> b \<noteq> []" by simp
    with Cons.prems(2) show "match_at (b @ s) = None" by blast
  qed
  from Cons.IH [OF Cons.prems(1) this] n show ?case by simp
qed

lemma no_hash_no_match:
  "CHR ''#'' \<notin> set pre \<Longrightarrow> \<forall>a b. pre = a @ b \<and> b \<noteq> [] \<longrightarrow> match_at (b @ s) = None"
proof (intro allI impI)
  fix a b assume h: "CHR ''#'' \<notin> set pre" and "pre = a @ b \<and> b \<noteq> []"
  then obtain x b' where "b = x # b'" "CHR ''#'' \<noteq> x" by (cases b) auto
  then show "match_at (b @ s) = None" by (simp add: match_at_no_hash)
qed

lemma eval_text_two:
  "text_two = (''// first'' @ [CHR 0x0A]) @
     (''#include'' @ [CHR 0x0A] @ [CHR 0x22] @ ''a.h'' @ [CHR 0x22] @ ([CHR 0x0A] @ ''#include <b.h>'' @ [CHR 0x0A]))"
  "list_all is_space [CHR 0x0A]" "is_open (CHR 0x22)" "is_close (CHR 0x22)"
  "CHR 0x0A \<notin> set ''a.h''" "\<forall>x\<in>set ''a.h''. \<not> is_close x"
  "\<forall>x\<in>set (takeWhile (\<lambda>x. x \<noteq> CHR 0x0A) ([CHR 0x0A] @ ''#include <b.h>'' @ [CHR 0x0A])). \<not> is_close x"
  "CHR ''#'' \<notin> set (''// first'' @ [CHR 0x0A])"
  "findall ([CHR 0x0A] @ ''#include <b.h>'' @ [CHR 0x0A]) = [''b.h'']"
  "filename_normalize ''a.h'' = ''a''" "filename_normalize ''b.h'' = ''b''"
  "CHR ''/'' \<notin> set ''a.h''"
  by (simp_all add: text_two_def is_space_def is_open_def is_close_def match_at_def
        filename_normalize_def basename_def)

lemma eval_text_cross:
  "findall text_cross = [''a.h'']"
  "text_cross = line_cross1 @ [CHR 0x0A] @ line_cross2"
  "spec_recognized line_cross1 = None"
  "spec_recognized line_cross2 = None"
  by (simp_all add: text_cross_def line_cross1_def line_cross2_def match_at_def spec_directive_at_def is_space_def is_open_def
        is_close_def)

lemma filter_startswith_prefix: "filter (startswith p) gs = filter (\<lambda>grp. prefix grp p) gs"
  by (simp add: startswith_prefix cong: filter_cong)

lemma no_match_iff_prefix: "filter (startswith p) gs = [] \<longleftrightarrow> \<not> (\<exists>grp\<in>set gs. prefix grp p)"
  by (simp add: filter_empty_conv startswith_prefix)

lemma matching_set_prefix: "set (filter (startswith p) gs) = {grp \<in> set gs. prefix grp p}"
  by (simp add: startswith_prefix)

lemma plain_node_in_group_nodes: "Node n [] \<notin> set (group_nodes gs p)"
  by (auto simp: group_nodes_def)

lemma plain_node_in_file_stmts:
  "Node n [] \<in> set (file_stmts fs ns px p) \<longleftrightarrow> n = filename_normalize p"
  by (auto simp: file_stmts_def neighbor_stmts_def split: option.splits if_splits)

lemma plain_node_in_create_graph:
  "Node n [] \<in> set (body (create_graph fs gs files s)) \<longleftrightarrow>
     (\<exists>p\<in>set files. n = filename_normalize p \<and> \<not> (\<exists>grp\<in>set gs. prefix grp (dirname p)))"
  (is "?L \<longleftrightarrow> ?R")
proof
  define g :: digraph where "g = Digraph s []"
  assume ?L
  then obtain kv where kv: "kv \<in> set (folder_to_files (find_nodes gs g files))"
    and e: "Node n [] \<in> set (folder_stmts fs gs (nodes (find_nodes gs g files))
              (proxy_nodes (find_nodes gs g files)) kv)"
    unfolding create_graph_body [of fs gs files s g] by (auto simp: plain_node_in_group_nodes)
  from e have ng: "\<not> folder_in_group gs (fst kv)"
    by (auto simp: folder_stmts_def split: if_splits)
  with e obtain p where p: "p \<in> set (snd kv)" and n: "n = filename_normalize p"
    by (auto simp: folder_stmts_def plain_node_in_file_stmts)
  from kv have "(fst kv, snd kv) \<in> set (folder_to_files (find_nodes gs g files))" by simp
  from folders_sound [OF this p] have dp: "dirname p = fst kv" and pf: "p \<in> set files" by auto
  from ng dp have "\<not> (\<exists>grp\<in>set gs. prefix grp (dirname p))"
    by (simp add: folder_in_group_iff startswith_prefix)
  with n have "n = filename_normalize p \<and> \<not> (\<exists>grp\<in>set gs. prefix grp (dirname p))" ..
  with pf show ?R ..
next
  define g :: digraph where "g = Digraph s []"
  assume ?R
  then obtain p where p: "p \<in> set files" and n: "n = filename_normalize p"
    and ng: "\<not> (\<exists>grp\<in>set gs. prefix grp (dirname p))" by blast
  from folders_complete [OF p, of gs g] obtain v
    where kv: "(dirname p, v) \<in> set (folder_to_files (find_nodes gs g files))" and pv: "p \<in> set v"
    by blast
  from ng have "\<not> folder_in_group gs (dirname p)"
    by (simp add: folder_in_group_iff startswith_prefix)
  with n pv have "Node n [] \<in> set (folder_stmts fs gs (nodes (find_nodes gs g files))
              (proxy_nodes (find_nodes gs g files)) (dirname p, v))"
    by (auto simp: folder_stmts_def plain_node_in_file_stmts)
  with kv show ?L unfolding create_graph_body [of fs gs files s g] by auto
qed

lemma eval_lib2_graph:
  "body (create_graph fs_main_x [''./lib''] [''./lib2/x.h'', ''./main.c''] False) =
     [Node ''group - lib'' [(''color'', ''lightgreen'')], Node ''main'' [],
      Edge ''main'' ''group - lib'' [(''dir'', ''back''), (''color'', ''blue'')]]"
  by (simp add: eval_defs input_defs)

lemma eval_lib2_prefix:
  "prefix ''./lib'' ''./lib2/x.h''" "prefix ''./lib'' (dirname ''./lib2/x.h'')"
  by (simp_all add: dirname_def rstrip_slash_def)

lemma eval_two_rules_nodes:
  "filter (\<lambda>grp. prefix grp ''./lib/core/y.h'') [''./lib'', ''./lib/core''] = [''./lib'', ''./lib/core'']"
  "group_name_of ''./lib'' = ''group - lib''" "group_name_of ''./lib/core'' = ''group - core''"
  "filename_normalize ''./lib/core/y.h'' = ''y''"
  "prefix ''./lib'' ''./src/z.h'' = False" "prefix ''./lib/core'' ''./src/z.h'' = False"
  "filename_normalize ''./src/z.h'' = ''z''"
  by (simp_all add: group_name_of_def filename_normalize_def basename_def)

lemma eval_two_rules_graph:
  "body (create_graph fs_main_y [''./lib'', ''./lib/core''] [''./lib/core/y.h'', ''./main.c''] False) =
     [Node ''group - lib'' [(''color'', ''lightgreen'')],
      Node ''group - core'' [(''color'', ''lightgreen'')],
      Node ''main'' [],
      Edge ''main'' ''group - core'' [(''dir'', ''back''), (''color'', ''blue'')]]"
  by (simp add: eval_defs input_defs fs_main_y_def)

lemma eval_two_rules_proxy:
  "proxy_nodes (find_nodes [''./lib'', ''./lib/core''] (Digraph False []) [''./lib/core/y.h'']) ''y''
     = Some ''group - core''"
  by (simp add: eval_defs)

lemma eval_same_name_rules:
  "startswith ''./src/lib/x.h'' ''./test/lib'' = False"
  "group_name_of ''./test/lib'' = ''group - lib''"
  "nodes (find_nodes [''./src/lib'', ''./test/lib''] (Digraph False []) [''./src/lib/x.h'']) = {''group - lib''}"
  "body (create_graph fs_main_x [''./src/lib'', ''./test/lib''] [''./src/lib/x.h''] False) =
     [Node ''group - lib'' [(''color'', ''lightgreen'')]]"
  by (simp_all add: eval_defs input_defs)

section \<open>The claims\<close>

subsection \<open>C1: the order of the pair an edge records\<close>




subsection \<open>C2: a path matched by several group rules\<close>

text \<open>
  C2, as the code has it. The loop over the group rules has no early exit: when a path
  starts with several of them, the proxy node of every matching rule is added to the node
  set and declared in the graph, and the base name of the file is mapped to the proxy of
  the last matching rule in the configured order. The mapping is still that one at the end
  of the first loop unless a later file with the same base name also lies in a group.
\<close>

theorem last_matching_group_is_proxy:
  "(filter (startswith path) gs \<noteq> [] \<longrightarrow>
      proxy_nodes (register_file gs st path) (filename_normalize path) =
        Some (group_name_of (last (filter (startswith path) gs))) \<and>
      nodes (register_file gs st path) =
        nodes st \<union> group_name_of ` set (filter (startswith path) gs) \<and>
      body (graph (register_file gs st path)) = body (graph st) @ group_nodes gs path)
   \<and> (filter (startswith path) gs \<noteq> [] \<longrightarrow>
      (\<forall>q\<in>set later. filename_normalize q \<noteq> filename_normalize path \<or>
                      filter (startswith q) gs = []) \<longrightarrow>
      proxy_nodes (find_nodes gs g (earlier @ path # later)) (filename_normalize path) =
        Some (group_name_of (last (filter (startswith path) gs))))"
proof (intro conjI impI)
  assume m: "filter (startswith path) gs \<noteq> []"
  then show "proxy_nodes (register_file gs st path) (filename_normalize path) =
        Some (group_name_of (last (filter (startswith path) gs)))"
    by (simp add: register_proxy)
  from m show "nodes (register_file gs st path) =
        nodes st \<union> group_name_of ` set (filter (startswith path) gs)"
    by (simp add: register_nodes)
  show "body (graph (register_file gs st path)) = body (graph st) @ group_nodes gs path"
    by (rule register_body)
next
  assume m: "filter (startswith path) gs \<noteq> []"
    and l: "\<forall>q\<in>set later. filename_normalize q \<noteq> filename_normalize path \<or>
                      filter (startswith q) gs = []"
  have "proxy_nodes (find_nodes gs g ((earlier @ [path]) @ later)) (filename_normalize path) =
        proxy_nodes (find_nodes gs g (earlier @ [path])) (filename_normalize path)"
    using l by (rule proxy_kept_by_later_files)
  also have "\<dots> = Some (group_name_of (last (filter (startswith path) gs)))"
    unfolding find_nodes_snoc register_proxy using m by simp
  finally show "proxy_nodes (find_nodes gs g (earlier @ path # later)) (filename_normalize path) =
        Some (group_name_of (last (filter (startswith path) gs)))" by simp
qed

theorem last_matching_group_is_proxy_witness:
  "filter (startswith ''./lib/sub/x.h'') [''./lib'', ''./lib/sub''] \<noteq> [] \<and>
   filename_normalize ''./main.c'' \<noteq> filename_normalize ''./lib/sub/x.h'' \<and>
   proxy_nodes (find_nodes [''./lib'', ''./lib/sub''] (Digraph False [])
                  [''./lib/sub/x.h'', ''./main.c'']) ''x'' = Some ''group - sub''"
  using last_matching_group_is_proxy [of "''./lib/sub/x.h''" "[''./lib'', ''./lib/sub'']" _
      "[''./main.c'']" "Digraph False []" "[]"]
  by (simp add: eval_two_groups eval_main)

text \<open>
  C2 as stated fails: with the rules \<^verbatim>\<open>./lib\<close> and \<^verbatim>\<open>./lib/sub\<close> in this order, the
  file \<^verbatim>\<open>./lib/sub/x.h\<close> matches both, its base name is not mapped to the proxy of the
  first, and an include of it from \<^verbatim>\<open>main.c\<close> gives an edge to \<^verbatim>\<open>group - sub\<close>.
\<close>

theorem first_group_authoritative_counterexample:
  "startswith ''./lib/sub/x.h'' ''./lib'' \<and> startswith ''./lib/sub/x.h'' ''./lib/sub'' \<and>
   proxy_nodes (find_nodes [''./lib'', ''./lib/sub''] (Digraph False []) [''./lib/sub/x.h'']) ''x''
     \<noteq> Some (group_name_of ''./lib'') \<and>
   edges_of (create_graph fs_main_x [''./lib'', ''./lib/sub''] [''./lib/sub/x.h'', ''./main.c''] False)
     = [Edge ''main'' ''group - sub'' [(''dir'', ''back''), (''color'', ''blue'')]]"
proof -
  have "proxy_nodes (find_nodes [''./lib'', ''./lib/sub''] (Digraph False []) [''./lib/sub/x.h'']) ''x''
          = Some ''group - sub''"
    using find_nodes_snoc [of "[''./lib'', ''./lib/sub'']" "Digraph False []" "[]" "''./lib/sub/x.h''"]
    by (simp add: register_proxy eval_two_groups)
  then show ?thesis
    by (simp add: eval_two_groups edges_of_def eval_first_group_cex)
qed

subsection \<open>C3: files under a group prefix\<close>

text \<open>
  C3 at the group rule \<^verbatim>\<open>./lib/\<close>, the form a directory argument takes when it is given
  with its closing slash. Both files of the directory start with the rule, so the first
  loop maps their base names to the proxy (whose name is \<^verbatim>\<open>group - \<close>, the base name of
  the rule being empty) and adds no direct node for them. The folder \<^verbatim>\<open>./lib\<close> itself does
  not start with \<^verbatim>\<open>./lib/\<close>, so the second loop processes both files: the graph declares
  the nodes \<^verbatim>\<open>x\<close> and \<^verbatim>\<open>y\<close> and holds an edge of \<^verbatim>\<open>x\<close>.
\<close>

theorem grouped_file_processed_as_own_node:
  "startswith ''./lib/x.h'' ''./lib/'' \<and> startswith ''./lib/y.h'' ''./lib/'' \<and>
   \<not> startswith (dirname ''./lib/x.h'') ''./lib/'' \<and>
   nodes (find_nodes [''./lib/''] (Digraph False []) [''./lib/x.h'', ''./lib/y.h'']) = {''group - ''} \<and>
   body (create_graph fs_xy [''./lib/''] [''./lib/x.h'', ''./lib/y.h''] False) =
     [Node ''group - '' [(''color'', ''lightgreen'')],
      Node ''group - '' [(''color'', ''lightgreen'')],
      Node ''x'' [],
      Edge ''x'' ''group - '' [(''dir'', ''back''), (''color'', ''red'')],
      Node ''y'' []]"
  by (simp add: eval_defs input_defs)

subsection \<open>C4: self-edges\<close>

text \<open>
  C4, as the code has it. An include target whose normalized name equals the base name of
  the including file gives no edge. The guard compares these two names only, and the other
  end of an edge may be a proxy: an edge \<^verbatim>\<open>(X, X)\<close> is in the graph only when \<^verbatim>\<open>X\<close> is
  at once the base name of an including file and the proxy name of a group rule. When no
  discovered file has a base name that starts with \<^verbatim>\<open>group - \<close>, the graph has no edge
  \<^verbatim>\<open>(X, X)\<close>.
\<close>

theorem self_edge_only_through_proxy:
  "neighbor_step ns px node color gr node = gr
   \<and> (\<forall>x. (x, x) \<in> edge_set (create_graph fs gs files s) \<longrightarrow>
        (\<exists>p\<in>set files. \<exists>grp\<in>set gs. filename_normalize p = x \<and> group_name_of grp = x))
   \<and> ((\<forall>p\<in>set files. \<not> startswith (filename_normalize p) ''group - '') \<longrightarrow>
        (\<forall>x. (x, x) \<notin> edge_set (create_graph fs gs files s)))"
proof -
  define g :: digraph where "g = Digraph s []"
  have origin: "\<exists>p\<in>set files. \<exists>grp\<in>set gs. filename_normalize p = x \<and> group_name_of grp = x"
    if "(x, x) \<in> edge_set (create_graph fs gs files s)" for x
  proof -
    from that obtain a where "Edge x x a \<in> set (body (create_graph fs gs files s))"
      unfolding edge_set_iff by blast
    then obtain p where p: "p \<in> set files"
      and e: "Edge x x a \<in> set (file_stmts fs (nodes (find_nodes gs g files))
                (proxy_nodes (find_nodes gs g files)) p)"
      unfolding edge_in_create_graph [of x x a fs gs files s g] by blast
    from e obtain n where x: "x = filename_normalize p"
      and px: "proxy_nodes (find_nodes gs g files) n = Some x"
      unfolding edge_in_file_stmts by blast
    from proxy_value_origin [OF px] obtain grp where "grp \<in> set gs" "x = group_name_of grp"
      by blast
    with p x show ?thesis by auto
  qed
  have none: "(x, x) \<notin> edge_set (create_graph fs gs files s)"
    if nf: "\<forall>p\<in>set files. \<not> startswith (filename_normalize p) ''group - ''" for x
  proof
    assume "(x, x) \<in> edge_set (create_graph fs gs files s)"
    from origin [OF this] obtain p grp where p: "p \<in> set files"
      and "filename_normalize p = x" and "group_name_of grp = x" by blast
    then have "filename_normalize p = group_name_of grp" by simp
    with group_name_prefix [of grp] have "startswith (filename_normalize p) ''group - ''" by simp
    with nf p show False by blast
  qed
  have "neighbor_step ns px node color gr node = gr"
    by (simp add: neighbor_step_def)
  with origin none show ?thesis by blast
qed

theorem self_edge_only_through_proxy_witness:
  "\<not> startswith (filename_normalize ''./lib/x.c'') ''group - '' \<and>
   \<not> startswith (filename_normalize ''./lib/y.h'') ''group - '' \<and>
   \<not> startswith (filename_normalize ''./main.c'') ''group - '' \<and>
   edge_set (create_graph fs_lib [''./lib''] [''./lib/x.c'', ''./lib/y.h'', ''./main.c''] False) =
     {(''main'', ''group - lib'')} \<and>
   (''main'', ''main'') \<notin>
     edge_set (create_graph fs_lib [''./lib''] [''./lib/x.c'', ''./lib/y.h'', ''./main.c''] False)"
proof -
  have h: "\<forall>p\<in>set [''./lib/x.c'', ''./lib/y.h'', ''./main.c''].
             \<not> startswith (filename_normalize p) ''group - ''"
    by (simp add: eval_lib_names)
  note t = self_edge_only_through_proxy [of _ _ _ _ _ fs_lib "[''./lib'']"
      "[''./lib/x.c'', ''./lib/y.h'', ''./main.c'']" False]
  have "\<forall>x. (x, x) \<notin>
     edge_set (create_graph fs_lib [''./lib''] [''./lib/x.c'', ''./lib/y.h'', ''./main.c''] False)"
    by (rule mp [OF conjunct2 [OF conjunct2 [OF t]] h])
  then have a: "(''main'', ''main'') \<notin>
     edge_set (create_graph fs_lib [''./lib''] [''./lib/x.c'', ''./lib/y.h'', ''./main.c''] False)"
    by (rule spec)
  have b: "edge_set (create_graph fs_lib [''./lib''] [''./lib/x.c'', ''./lib/y.h'', ''./main.c''] False) =
     {(''main'', ''group - lib'')}"
    by (simp add: edge_set_def eval_lib_scenario_graph)
  have c: "\<not> startswith (filename_normalize ''./lib/x.c'') ''group - ''"
    "\<not> startswith (filename_normalize ''./lib/y.h'') ''group - ''"
    "\<not> startswith (filename_normalize ''./main.c'') ''group - ''"
    by (simp_all add: eval_lib_names)
  from a b c show ?thesis by (intro conjI)
qed

text \<open>
  C4 as stated fails: with the rule \<^verbatim>\<open>./lib\<close>, the file \<^verbatim>\<open>./group - lib.h\<close> includes
  \<^verbatim>\<open>"x.h"\<close>, a member of the group, and the edge goes from the node \<^verbatim>\<open>group - lib\<close> to
  itself.
\<close>

theorem self_edge_counterexample:
  "(''group - lib'', ''group - lib'') \<in>
     edge_set (create_graph fs_self [''./lib''] [''./lib/x.h'', ''./group - lib.h''] False)"
  by (simp add: edge_set_def eval_self_graph)

subsection \<open>C5: folders covered by a group rule\<close>

text \<open>
  C5. The files of a folder whose path starts with a group rule are not read: two trees
  whose files have the same text in every folder that starts with no group rule give the
  same graph, whatever the files of the covered folders contain. And every edge statement
  of the graph comes from a file of a folder that starts with no group rule.
\<close>

theorem covered_folders_are_not_read:
  "((\<forall>p\<in>set files. (\<forall>grp\<in>set gs. \<not> startswith (dirname p) grp) \<longrightarrow> fs p = fs' p) \<longrightarrow>
      create_graph fs gs files s = create_graph fs' gs files s)
   \<and> (\<forall>t h a. Edge t h a \<in> set (body (create_graph fs gs files s)) \<longrightarrow>
        (\<exists>p\<in>set files. (\<forall>grp\<in>set gs. \<not> startswith (dirname p) grp) \<and>
           t = filename_normalize p \<and>
           Edge t h a \<in> set (file_stmts fs (nodes (find_nodes gs g files))
                               (proxy_nodes (find_nodes gs g files)) p)))"
proof (intro conjI impI allI)
  assume "\<forall>p\<in>set files. (\<forall>grp\<in>set gs. \<not> startswith (dirname p) grp) \<longrightarrow> fs p = fs' p"
  then have "\<forall>p\<in>set files. \<not> folder_in_group gs (dirname p) \<longrightarrow> fs p = fs' p"
    by (simp add: folder_in_group_iff)
  then show "create_graph fs gs files s = create_graph fs' gs files s"
    by (rule create_graph_fs_cong)
next
  fix t h a
  assume "Edge t h a \<in> set (body (create_graph fs gs files s))"
  then obtain p where p: "p \<in> set files" and n: "\<not> folder_in_group gs (dirname p)"
    and e: "Edge t h a \<in> set (file_stmts fs (nodes (find_nodes gs g files))
              (proxy_nodes (find_nodes gs g files)) p)"
    unfolding edge_in_create_graph [of t h a fs gs files s g] by blast
  from e have "t = filename_normalize p" unfolding edge_in_file_stmts by blast
  with p n e show "\<exists>p\<in>set files. (\<forall>grp\<in>set gs. \<not> startswith (dirname p) grp) \<and>
           t = filename_normalize p \<and>
           Edge t h a \<in> set (file_stmts fs (nodes (find_nodes gs g files))
                               (proxy_nodes (find_nodes gs g files)) p)"
    unfolding folder_in_group_iff by blast
qed

theorem covered_folders_are_not_read_witness:
  "startswith (dirname ''./lib/x.c'') ''./lib'' \<and> startswith (dirname ''./lib/y.h'') ''./lib'' \<and>
   fs_lib ''./main.c'' = fs_lib_empty ''./main.c'' \<and>
   fs_lib ''./lib/x.c'' \<noteq> fs_lib_empty ''./lib/x.c'' \<and>
   body (create_graph fs_lib [''./lib''] [''./lib/x.c'', ''./lib/y.h'', ''./main.c''] False) =
     [Node ''group - lib'' [(''color'', ''lightgreen'')],
      Node ''group - lib'' [(''color'', ''lightgreen'')],
      Node ''main'' [],
      Edge ''main'' ''group - lib'' [(''dir'', ''back''), (''color'', ''blue'')]]"
proof -
  have h: "\<forall>p\<in>set [''./lib/x.c'', ''./lib/y.h'', ''./main.c''].
             (\<forall>grp\<in>set [''./lib'']. \<not> startswith (dirname p) grp) \<longrightarrow> fs_lib p = fs_lib_empty p"
    by (simp add: eval_lib_dirs fs_lib_def fs_lib_empty_def)
  note t = covered_folders_are_not_read [of "[''./lib/x.c'', ''./lib/y.h'', ''./main.c'']"
      "[''./lib'']" fs_lib fs_lib_empty False]
  have "create_graph fs_lib [''./lib''] [''./lib/x.c'', ''./lib/y.h'', ''./main.c''] False =
        create_graph fs_lib_empty [''./lib''] [''./lib/x.c'', ''./lib/y.h'', ''./main.c''] False"
    by (rule mp [OF conjunct1 [OF t] h])
  then have b: "body (create_graph fs_lib [''./lib''] [''./lib/x.c'', ''./lib/y.h'', ''./main.c''] False) =
     [Node ''group - lib'' [(''color'', ''lightgreen'')],
      Node ''group - lib'' [(''color'', ''lightgreen'')],
      Node ''main'' [],
      Edge ''main'' ''group - lib'' [(''dir'', ''back''), (''color'', ''blue'')]]"
    by (simp only: eval_lib_empty_graph)
  have c: "fs_lib ''./main.c'' = fs_lib_empty ''./main.c''"
    "fs_lib ''./lib/x.c'' \<noteq> fs_lib_empty ''./lib/x.c''"
    by (simp_all add: fs_lib_def fs_lib_empty_def include_line_def)
  have d: "startswith (dirname ''./lib/x.c'') ''./lib''" "startswith (dirname ''./lib/y.h'') ''./lib''"
    by (simp_all add: eval_lib_dirs)
  from b c d show ?thesis by (intro conjI)
qed

subsection \<open>C6: include targets that resolve to nothing\<close>

text \<open>
  C6, as the code has it. An include target whose normalized name is neither in the node
  set of the first loop, which holds the direct node ids and the group-proxy ids alike,
  nor a key of the proxy map leaves the graph as it was; the builder is a total function
  and goes on with the next target. The graph is the one built from the files with those
  targets taken out, and the head of every edge is in the node set or is a value of the
  proxy map.
\<close>

theorem unresolved_target_is_dropped:
  "(n \<notin> ns \<and> px n = None \<longrightarrow> neighbor_step ns px node color gr n = gr)
   \<and> ((\<forall>p. find_neighbors fs' p =
             filter (\<lambda>n. n \<in> nodes (find_nodes gs g files) \<or>
                         proxy_nodes (find_nodes gs g files) n \<noteq> None)
                    (find_neighbors fs p)) \<longrightarrow>
        create_graph fs' gs files s = create_graph fs gs files s)
   \<and> (\<forall>t h a. Edge t h a \<in> set (body (create_graph fs gs files s)) \<longrightarrow>
        h \<in> nodes (find_nodes gs g files) \<or> h \<in> ran (proxy_nodes (find_nodes gs g files)))"
proof (intro conjI impI allI)
  assume "n \<notin> ns \<and> px n = None"
  then show "neighbor_step ns px node color gr n = gr"
    by (simp add: neighbor_step_def)
next
  assume "\<forall>p. find_neighbors fs' p =
             filter (\<lambda>n. n \<in> nodes (find_nodes gs g files) \<or>
                         proxy_nodes (find_nodes gs g files) n \<noteq> None)
                    (find_neighbors fs p)"
  then show "create_graph fs' gs files s = create_graph fs gs files s"
    by (rule create_graph_filter)
next
  fix t h a
  assume "Edge t h a \<in> set (body (create_graph fs gs files s))"
  then obtain p where "Edge t h a \<in> set (file_stmts fs (nodes (find_nodes gs g files))
              (proxy_nodes (find_nodes gs g files)) p)"
    unfolding edge_in_create_graph [of t h a fs gs files s g] by blast
  then show "h \<in> nodes (find_nodes gs g files) \<or> h \<in> ran (proxy_nodes (find_nodes gs g files))"
    unfolding edge_in_file_stmts by (auto simp: ran_def)
qed

theorem unresolved_target_is_dropped_witness:
  "find_neighbors fs_stdio ''./main.c'' = [''stdio'', ''x''] \<and>
   ''stdio'' \<notin> nodes (find_nodes [''./lib''] (Digraph False []) [''./lib/x.h'', ''./main.c'']) \<and>
   proxy_nodes (find_nodes [''./lib''] (Digraph False []) [''./lib/x.h'', ''./main.c'']) ''stdio'' = None \<and>
   body (create_graph fs_stdio [''./lib''] [''./lib/x.h'', ''./main.c''] False) =
     [Node ''group - lib'' [(''color'', ''lightgreen'')], Node ''main'' [],
      Edge ''main'' ''group - lib'' [(''dir'', ''back''), (''color'', ''blue'')]]"
proof -
  have h: "\<forall>p. find_neighbors fs_main_x p =
             filter (\<lambda>n. n \<in> nodes (find_nodes [''./lib''] (Digraph False []) [''./lib/x.h'', ''./main.c''])
                       \<or> proxy_nodes (find_nodes [''./lib''] (Digraph False []) [''./lib/x.h'', ''./main.c'']) n \<noteq> None)
                    (find_neighbors fs_stdio p)"
    unfolding eval_stdio_state using eval_stdio_filter by (rule allI)
  note t = unresolved_target_is_dropped [of _ _ _ _ _ _ fs_main_x "[''./lib'']" "Digraph False []"
      "[''./lib/x.h'', ''./main.c'']" fs_stdio False]
  have "create_graph fs_main_x [''./lib''] [''./lib/x.h'', ''./main.c''] False =
        create_graph fs_stdio [''./lib''] [''./lib/x.h'', ''./main.c''] False"
    by (rule mp [OF conjunct1 [OF conjunct2 [OF t]] h])
  then have b: "body (create_graph fs_stdio [''./lib''] [''./lib/x.h'', ''./main.c''] False) =
     [Node ''group - lib'' [(''color'', ''lightgreen'')], Node ''main'' [],
      Edge ''main'' ''group - lib'' [(''dir'', ''back''), (''color'', ''blue'')]]"
    using eval_main_x_graph by simp
  have c: "''stdio'' \<notin> nodes (find_nodes [''./lib''] (Digraph False []) [''./lib/x.h'', ''./main.c''])"
    "proxy_nodes (find_nodes [''./lib''] (Digraph False []) [''./lib/x.h'', ''./main.c'']) ''stdio'' = None"
    unfolding eval_stdio_state by simp_all
  from eval_stdio_neighbors c b show ?thesis by (intro conjI)
qed

text \<open>
  C6 as stated fails: the name \<^verbatim>\<open>group - lib\<close> is the base name of no discovered file, so
  it is neither a direct node id nor the name of a file merged into a proxy, yet an include
  of \<^verbatim>\<open>"group - lib.h"\<close> gives an edge, since the name is in the node set as a proxy id.
\<close>

theorem unresolved_target_counterexample:
  "find_neighbors fs_proxy_name ''./a.h'' = [''group - lib''] \<and>
   filename_normalize ''./a.h'' \<noteq> ''group - lib'' \<and>
   filename_normalize ''./lib/x.h'' \<noteq> ''group - lib'' \<and>
   edges_of (create_graph fs_proxy_name [''./lib''] [''./lib/x.h'', ''./a.h''] False) =
     [Edge ''a'' ''group - lib'' [(''dir'', ''back''), (''color'', ''red'')]]"
  by (simp add: eval_proxy_name eval_proxy_name_graph edges_of_def)

subsection \<open>C7: the include pattern and the normalization of targets\<close>

text \<open>
  C7, as the code has it. The pattern is applied to the whole text of a file. It matches at
  a position exactly when the text from there reads \<^verbatim>\<open>#include\<close>, one or more whitespace
  characters (line feeds among them, so the name may stand on a later line), an opening
  double quote or angle bracket, a text without line feed, and a closing double quote or
  angle bracket; the two delimiters need not be of the same kind. A file has a target
  exactly when the pattern matches at some position, every target is the capture of a match
  at some position, and the leftmost match gives the first target, the search going on
  behind it. When neither the enclosed text nor the rest of its line holds a further double
  quote or closing angle bracket, the capture is the enclosed text. Each target is reduced
  by \<^const>\<open>filename_normalize\<close>, the function that names the node of a path; so an include
  of a name without a slash agrees with the node of any path that ends in a slash and that
  name.
\<close>

theorem include_pattern_recognition:
  "(match_at s \<noteq> None \<longleftrightarrow>
      (\<exists>ws o' t c r. s = ''#include'' @ ws @ [o'] @ t @ [c] @ r \<and> ws \<noteq> [] \<and>
         list_all is_space ws \<and> is_open o' \<and> is_close c \<and> CHR 0x0A \<notin> set t))
   \<and> (findall src \<noteq> [] \<longleftrightarrow> (\<exists>pre s. src = pre @ s \<and> match_at s \<noteq> None))
   \<and> (\<forall>tg\<in>set (findall src). \<exists>pre s r. src = pre @ s \<and> match_at s = Some (tg, r))
   \<and> (ws \<noteq> [] \<and> list_all is_space ws \<and> is_open o' \<and> is_close c \<and> CHR 0x0A \<notin> set t \<and>
        (\<forall>x\<in>set t. \<not> is_close x) \<and>
        (\<forall>x\<in>set (takeWhile (\<lambda>x. x \<noteq> CHR 0x0A) r). \<not> is_close x) \<longrightarrow>
        match_at (''#include'' @ ws @ [o'] @ t @ [c] @ r) = Some (t, r))
   \<and> (match_at s1 = Some (t1, r1) \<and>
        (\<forall>a b. pre = a @ b \<and> b \<noteq> [] \<longrightarrow> match_at (b @ s1) = None) \<longrightarrow>
        findall (pre @ s1) = t1 # findall r1)
   \<and> find_neighbors fs p = map filename_normalize (findall (fs p))
   \<and> (CHR ''/'' \<notin> set name \<longrightarrow>
        filename_normalize (d @ ''/'' @ name) = filename_normalize name)"
proof (intro conjI impI ballI)
  show "match_at s \<noteq> None \<longleftrightarrow>
      (\<exists>ws o' t c r. s = ''#include'' @ ws @ [o'] @ t @ [c] @ r \<and> ws \<noteq> [] \<and>
         list_all is_space ws \<and> is_open o' \<and> is_close c \<and> CHR 0x0A \<notin> set t)"
    by (rule match_at_iff)
  show "findall src \<noteq> [] \<longleftrightarrow> (\<exists>pre s. src = pre @ s \<and> match_at s \<noteq> None)"
    by (rule findall_iff)
  show "\<exists>pre s r. src = pre @ s \<and> match_at s = Some (tg, r)" if "tg \<in> set (findall src)" for tg
    using that by (rule findall_elements)
  show "match_at (''#include'' @ ws @ [o'] @ t @ [c] @ r) = Some (t, r)"
    if "ws \<noteq> [] \<and> list_all is_space ws \<and> is_open o' \<and> is_close c \<and> CHR 0x0A \<notin> set t \<and>
        (\<forall>x\<in>set t. \<not> is_close x) \<and>
        (\<forall>x\<in>set (takeWhile (\<lambda>x. x \<noteq> CHR 0x0A) r). \<not> is_close x)"
    using that by (intro match_at_exact) (rule conjunct1, blast)+
  show "findall (pre @ s1) = t1 # findall r1"
    if "match_at s1 = Some (t1, r1) \<and>
        (\<forall>a b. pre = a @ b \<and> b \<noteq> [] \<longrightarrow> match_at (b @ s1) = None)"
    using that findall_leftmost [of s1 t1 r1 pre] by blast
  show "find_neighbors fs p = map filename_normalize (findall (fs p))"
    by (rule find_neighbors_def)
  show "filename_normalize (d @ ''/'' @ name) = filename_normalize name"
    if "CHR ''/'' \<notin> set name"
    using that by (rule normalize_join)
qed

theorem include_pattern_recognition_witness:
  "text_two = (''// first'' @ [CHR 0x0A]) @
     (''#include'' @ [CHR 0x0A] @ [CHR 0x22] @ ''a.h'' @ [CHR 0x22] @ ([CHR 0x0A] @ ''#include <b.h>'' @ [CHR 0x0A])) \<and>
   match_at (''#include'' @ [CHR 0x0A] @ [CHR 0x22] @ ''a.h'' @ [CHR 0x22] @ ([CHR 0x0A] @ ''#include <b.h>'' @ [CHR 0x0A]))
     = Some (''a.h'', [CHR 0x0A] @ ''#include <b.h>'' @ [CHR 0x0A]) \<and>
   find_neighbors (\<lambda>p. text_two) ''./main.c'' = [''a'', ''b''] \<and>
   filename_normalize (''./inc'' @ ''/'' @ ''a.h'') = ''a''"
proof -
  let ?r = "[CHR 0x0A] @ ''#include <b.h>'' @ [CHR 0x0A]"
  let ?s = "''#include'' @ [CHR 0x0A] @ [CHR 0x22] @ ''a.h'' @ [CHR 0x22] @ ?r"
  let ?pre = "''// first'' @ [CHR 0x0A]"
  note t = include_pattern_recognition [where ws = "[CHR 0x0A]" and o' = "CHR 0x22" and t = "''a.h''"
      and c = "CHR 0x22" and r = ?r and ?s1.0 = ?s and ?t1.0 = "''a.h''" and ?r1.0 = ?r and pre = ?pre
      and fs = "\<lambda>p. text_two" and p = "''./main.c''" and name = "''a.h''" and d = "''./inc''"]
  have h4: "[CHR 0x0A] \<noteq> [] \<and> list_all is_space [CHR 0x0A] \<and> is_open (CHR 0x22) \<and> is_close (CHR 0x22) \<and>
      CHR 0x0A \<notin> set ''a.h'' \<and> (\<forall>x\<in>set ''a.h''. \<not> is_close x) \<and>
      (\<forall>x\<in>set (takeWhile (\<lambda>x. x \<noteq> CHR 0x0A) ?r). \<not> is_close x)"
    using eval_text_two(2-7) by (intro conjI) simp_all
  have m: "match_at ?s = Some (''a.h'', ?r)"
    by (rule mp [OF conjunct1 [OF conjunct2 [OF conjunct2 [OF conjunct2 [OF t]]]] h4])
  have h5: "match_at ?s = Some (''a.h'', ?r) \<and>
      (\<forall>a b. ?pre = a @ b \<and> b \<noteq> [] \<longrightarrow> match_at (b @ ?s) = None)"
    using m no_hash_no_match [OF eval_text_two(8)] by (rule conjI)
  have "findall (?pre @ ?s) = ''a.h'' # findall ?r"
    by (rule mp [OF conjunct1 [OF conjunct2 [OF conjunct2 [OF conjunct2 [OF conjunct2 [OF t]]]]] h5])
  then have f: "findall text_two = [''a.h'', ''b.h'']"
    by (simp only: eval_text_two(1) [symmetric] eval_text_two(9))
  have "find_neighbors (\<lambda>p. text_two) ''./main.c'' = map filename_normalize (findall text_two)"
    by (rule conjunct1 [OF conjunct2 [OF conjunct2 [OF conjunct2 [OF conjunct2 [OF conjunct2 [OF t]]]]]])
  then have n: "find_neighbors (\<lambda>p. text_two) ''./main.c'' = [''a'', ''b'']"
    by (simp only: f list.map eval_text_two(10,11))
  have "filename_normalize (''./inc'' @ ''/'' @ ''a.h'') = filename_normalize ''a.h''"
    by (rule mp [OF conjunct2 [OF conjunct2 [OF conjunct2 [OF conjunct2 [OF conjunct2 [OF conjunct2 [OF t]]]]]]
          eval_text_two(12)])
  then have j: "filename_normalize (''./inc'' @ ''/'' @ ''a.h'') = ''a''"
    by (simp only: eval_text_two(10))
  from eval_text_two(1) m n j show ?thesis by (intro conjI)
qed

text \<open>
  C7 as stated fails. The line \<^verbatim>\<open>#include <foo.h"\<close> holds neither a double-quoted string nor
  an angle-bracket-delimited token, and the pattern recognizes it with the target
  \<^verbatim>\<open>foo.h\<close>. In the text with \<^verbatim>\<open>#include\<close> on one line and \<^verbatim>\<open>"a.h"\<close> on the next, neither
  line holds a directive, and the pattern finds the target \<^verbatim>\<open>a.h\<close>. And on the line
  \<^verbatim>\<open>#include "a.h" // see "b.h"\<close> the captured target is not the text the first pair of
  quotes encloses.
\<close>

theorem include_pattern_counterexample:
  "findall line_mixed = [''foo.h''] \<and> spec_recognized line_mixed = None \<and>
   findall text_cross = [''a.h''] \<and> text_cross = line_cross1 @ [CHR 0x0A] @ line_cross2 \<and>
   spec_recognized line_cross1 = None \<and> spec_recognized line_cross2 = None \<and>
   spec_recognized line_comment = Some ''a.h'' \<and> findall line_comment \<noteq> [''a.h'']"
  using eval_line_mixed eval_line_comment eval_text_cross by simp

subsection \<open>C8: running the builder twice\<close>

text \<open>
  C8. The builder is a function of the file list, the texts of the files, the group rules
  and the strict flag, so two calls on the same arguments return the same graph. What a
  second call of \<^verbatim>\<open>run\<close> on the same object changes is the configuration it builds: the
  arguments are appended to the lists of the class once more, so the blacklist and the
  group rules hold every added entry twice. On the same tree the second run still
  discovers the same files, and its graph has the same statements as the first, read as a
  set: the same declared nodes, the same edges with the same attributes, the same strict
  flag. (As lists the bodies differ: each group proxy is declared once more per file.)
\<close>

theorem second_run_same_nodes_and_edges:
  "(let r1 = run ab ag st fs tree dg; r2 = run ab ag st fs tree (snd r1)
    in set (body (fst r2)) = set (body (fst r1)) \<and>
       declared_nodes (fst r2) = declared_nodes (fst r1) \<and>
       edge_set (fst r2) = edge_set (fst r1) \<and>
       edges_of (fst r2) = edges_of (fst r1) \<and>
       strict (fst r2) = strict (fst r1))"
proof -
  obtain g1 dg1 where r1: "run ab ag st fs tree dg = (g1, dg1)" by (cases "run ab ag st fs tree dg")
  obtain g2 dg2 where r2: "run ab ag st fs tree dg1 = (g2, dg2)" by (cases "run ab ag st fs tree dg1")
  have b: "set (body g2) = set (body g1)" and e: "edges_of g2 = edges_of g1"
    using run_twice [OF r1 r2] by simp_all
  have s: "strict g2 = strict g1"
    using r1 r2 by (auto simp: run_def Let_def create_graph_strict)
  from b e s edge_set_from_body [OF b] declared_from_body [OF b] show ?thesis
    by (simp add: r1 r2)
qed

theorem second_run_same_nodes_and_edges_witness:
  "body (fst (run [] [[''lib'']] False fs_main_x
                [Dir ''.git'' [File ''c.h''], Dir ''lib'' [File ''x.h''], File ''main.c'']
                (init [''.git'', ''.settings'', ''.vscode''] [] ''.''))) =
     [Node ''group - lib'' [(''color'', ''lightgreen'')], Node ''main'' [],
      Edge ''main'' ''group - lib'' [(''dir'', ''back''), (''color'', ''blue'')]] \<and>
   edge_set (fst (run [] [[''lib'']] False fs_main_x
                [Dir ''.git'' [File ''c.h''], Dir ''lib'' [File ''x.h''], File ''main.c'']
                (snd (run [] [[''lib'']] False fs_main_x
                  [Dir ''.git'' [File ''c.h''], Dir ''lib'' [File ''x.h''], File ''main.c'']
                  (init [''.git'', ''.settings'', ''.vscode''] [] ''.''))))) =
     {(''main'', ''group - lib'')}"
  using second_run_same_nodes_and_edges [of "[]" "[[''lib'']]" False fs_main_x
      "[Dir ''.git'' [File ''c.h''], Dir ''lib'' [File ''x.h''], File ''main.c'']"
      "init [''.git'', ''.settings'', ''.vscode''] [] ''.''"]
  unfolding Let_def eval_run_first
  by (simp add: edge_set_def)

subsection \<open>C9: group membership is a literal prefix test\<close>

text \<open>
  C9, as the code has it. Both loops decide membership by comparing strings, with no look
  at the character behind the prefix. Registering a path \<^verbatim>\<open>P\<close> under any list of rules: when
  some rule is a prefix of the string \<^verbatim>\<open>P\<close>, the proxy of every such rule is added to the
  node set and declared, the base name of \<^verbatim>\<open>P\<close> is mapped to the proxy of the last such
  rule of the list, and no direct node is added; when none is, the base name of \<^verbatim>\<open>P\<close> is
  added as a direct node and nothing else changes. The second loop skips a folder exactly
  when some rule is a prefix of the folder's path, so the graph declares a node of its own
  for exactly the files of the other folders. So the rule \<^verbatim>\<open>./lib\<close> captures
  \<^verbatim>\<open>./lib2/x.h\<close>, file and folder.
\<close>

theorem group_membership_is_literal_prefix:
  "nodes (register_file gs st P) =
     nodes st \<union> (if \<exists>grp\<in>set gs. prefix grp P then group_name_of ` set (filter (\<lambda>grp. prefix grp P) gs)
                 else {filename_normalize P})
   \<and> proxy_nodes (register_file gs st P) =
       (if \<exists>grp\<in>set gs. prefix grp P
        then (proxy_nodes st)(filename_normalize P \<mapsto>
               group_name_of (last (filter (\<lambda>grp. prefix grp P) gs)))
        else proxy_nodes st)
   \<and> body (graph (register_file gs st P)) =
       body (graph st) @
       map (\<lambda>grp. Node (group_name_of grp) [(''color'', ''lightgreen'')])
           (filter (\<lambda>grp. prefix grp P) gs)
   \<and> (folder_in_group gs folder \<longleftrightarrow> (\<exists>grp\<in>set gs. prefix grp folder))
   \<and> folder_step fs gs ns px gr (folder, paths) =
       (if \<exists>grp\<in>set gs. prefix grp folder then gr else foldl (file_step fs ns px) gr paths)
   \<and> nodes (find_nodes gs g files) =
       (\<Union>p\<in>set files. if \<exists>grp\<in>set gs. prefix grp p
                          then group_name_of ` set (filter (\<lambda>grp. prefix grp p) gs)
                          else {filename_normalize p})
   \<and> (Node n [(''color'', ''lightgreen'')] \<in> set (body (create_graph fs gs files s)) \<longleftrightarrow>
        (\<exists>grp\<in>set gs. \<exists>p\<in>set files. prefix grp p \<and> n = group_name_of grp))
   \<and> (Node n [] \<in> set (body (create_graph fs gs files s)) \<longleftrightarrow>
        (\<exists>p\<in>set files. n = filename_normalize p \<and> \<not> (\<exists>grp\<in>set gs. prefix grp (dirname p))))
   \<and> prefix ''./lib'' ''./lib2/x.h'' \<and> prefix ''./lib'' (dirname ''./lib2/x.h'')
   \<and> body (create_graph fs_main_x [''./lib''] [''./lib2/x.h'', ''./main.c''] False) =
       [Node ''group - lib'' [(''color'', ''lightgreen'')], Node ''main'' [],
        Edge ''main'' ''group - lib'' [(''dir'', ''back''), (''color'', ''blue'')]]"
proof (intro conjI)
  show "nodes (register_file gs st P) =
     nodes st \<union> (if \<exists>grp\<in>set gs. prefix grp P then group_name_of ` set (filter (\<lambda>grp. prefix grp P) gs)
                 else {filename_normalize P})"
    by (simp add: register_nodes filter_startswith_prefix filter_empty_conv)
  show "proxy_nodes (register_file gs st P) =
       (if \<exists>grp\<in>set gs. prefix grp P
        then (proxy_nodes st)(filename_normalize P \<mapsto>
               group_name_of (last (filter (\<lambda>grp. prefix grp P) gs)))
        else proxy_nodes st)"
    by (simp add: register_proxy filter_startswith_prefix filter_empty_conv)
  show "body (graph (register_file gs st P)) =
       body (graph st) @
       map (\<lambda>grp. Node (group_name_of grp) [(''color'', ''lightgreen'')])
           (filter (\<lambda>grp. prefix grp P) gs)"
    unfolding register_body group_nodes_def filter_startswith_prefix ..
  show "folder_in_group gs folder \<longleftrightarrow> (\<exists>grp\<in>set gs. prefix grp folder)"
    by (simp add: folder_in_group_iff startswith_prefix)
  show "folder_step fs gs ns px gr (folder, paths) =
       (if \<exists>grp\<in>set gs. prefix grp folder then gr else foldl (file_step fs ns px) gr paths)"
    by (simp add: folder_step_def folder_in_group_iff startswith_prefix)
  show "nodes (find_nodes gs g files) =
       (\<Union>p\<in>set files. if \<exists>grp\<in>set gs. prefix grp p
                          then group_name_of ` set (filter (\<lambda>grp. prefix grp p) gs)
                          else {filename_normalize p})"
    unfolding find_nodes_nodes filter_startswith_prefix
    by (intro SUP_cong refl) (simp add: filter_empty_conv)
  show "Node n [(''color'', ''lightgreen'')] \<in> set (body (create_graph fs gs files s)) \<longleftrightarrow>
        (\<exists>grp\<in>set gs. \<exists>p\<in>set files. prefix grp p \<and> n = group_name_of grp)"
    unfolding proxy_node_in_create_graph by (simp add: startswith_prefix)
  show "Node n [] \<in> set (body (create_graph fs gs files s)) \<longleftrightarrow>
        (\<exists>p\<in>set files. n = filename_normalize p \<and> \<not> (\<exists>grp\<in>set gs. prefix grp (dirname p)))"
    by (rule plain_node_in_create_graph)
  show "prefix ''./lib'' ''./lib2/x.h''" "prefix ''./lib'' (dirname ''./lib2/x.h'')"
    by (rule eval_lib2_prefix)+
  show "body (create_graph fs_main_x [''./lib''] [''./lib2/x.h'', ''./main.c''] False) =
       [Node ''group - lib'' [(''color'', ''lightgreen'')], Node ''main'' [],
        Edge ''main'' ''group - lib'' [(''dir'', ''back''), (''color'', ''blue'')]]"
    by (rule eval_lib2_graph)
qed

theorem group_membership_is_literal_prefix_witness:
  "prefix ''./lib'' ''./lib/core/y.h'' \<and> prefix ''./lib/core'' ''./lib/core/y.h'' \<and>
   nodes (register_file [''./lib'', ''./lib/core''] (find_nodes [] (Digraph False []) []) ''./lib/core/y.h'')
     = {''group - lib'', ''group - core''} \<and>
   proxy_nodes (register_file [''./lib'', ''./lib/core''] (find_nodes [] (Digraph False []) [])
                  ''./lib/core/y.h'') ''y'' = Some ''group - core'' \<and>
   \<not> prefix ''./lib'' ''./src/z.h'' \<and> \<not> prefix ''./lib/core'' ''./src/z.h'' \<and>
   nodes (register_file [''./lib'', ''./lib/core''] (find_nodes [] (Digraph False []) []) ''./src/z.h'')
     = {''z''}"
proof -
  let ?st = "find_nodes [] (Digraph False []) []"
  have e: "nodes ?st = {}" by (simp add: find_nodes_Nil)
  note a = group_membership_is_literal_prefix [of "[''./lib'', ''./lib/core'']" ?st "''./lib/core/y.h''"]
  note b = group_membership_is_literal_prefix [of "[''./lib'', ''./lib/core'']" ?st "''./src/z.h''"]
  have p: "prefix ''./lib'' ''./lib/core/y.h''" "prefix ''./lib/core'' ''./lib/core/y.h''" by simp_all
  have q: "\<not> prefix ''./lib'' ''./src/z.h''" "\<not> prefix ''./lib/core'' ''./src/z.h''" by simp_all
  have n1: "nodes (register_file [''./lib'', ''./lib/core''] ?st ''./lib/core/y.h'')
     = {''group - lib'', ''group - core''}"
    using conjunct1 [OF a] by (simp add: e eval_two_rules_nodes)
  have p1: "proxy_nodes (register_file [''./lib'', ''./lib/core''] ?st ''./lib/core/y.h'') ''y''
     = Some ''group - core''"
    using conjunct1 [OF conjunct2 [OF a]] by (simp add: eval_two_rules_nodes)
  have n2: "nodes (register_file [''./lib'', ''./lib/core''] ?st ''./src/z.h'') = {''z''}"
    using conjunct1 [OF b] by (simp add: e eval_two_rules_nodes)
  from p n1 p1 q n2 show ?thesis by (intro conjI)
qed

text \<open>
  C9 as stated fails: with the rules \<^verbatim>\<open>./lib\<close> and \<^verbatim>\<open>./lib/core\<close>, the path
  \<^verbatim>\<open>./lib/core/y.h\<close> starts with the string \<^verbatim>\<open>./lib\<close>, yet its base name is mapped to the
  proxy of the other rule and an include of it gives an edge to \<^verbatim>\<open>group - core\<close>.
\<close>

theorem literal_prefix_counterexample:
  "startswith ''./lib/core/y.h'' ''./lib'' \<and>
   proxy_nodes (find_nodes [''./lib'', ''./lib/core''] (Digraph False []) [''./lib/core/y.h'']) ''y''
     \<noteq> Some (group_name_of ''./lib'') \<and>
   edges_of (create_graph fs_main_y [''./lib'', ''./lib/core''] [''./lib/core/y.h'', ''./main.c''] False)
     = [Edge ''main'' ''group - core'' [(''dir'', ''back''), (''color'', ''blue'')]]"
  by (simp add: eval_two_rules_proxy eval_two_rules_graph eval_two_rules_nodes edges_of_def)

subsection \<open>C10: a group rule that matches no file\<close>

text \<open>
  C10, as the code has it. A statement declaring a group proxy is in the graph exactly
  when its name is the proxy name of a group rule that is a prefix of the path of some
  discovered file. When no
  discovered file starts with the rule \<^verbatim>\<open>G\<close>, the graph built with \<^verbatim>\<open>G\<close> among the rules
  is the graph built without it, and so are the node set and the proxy map of the first
  loop; the proxy of \<^verbatim>\<open>G\<close> is then in the node set only if another matching rule
  or a file outside every group has that very name.
\<close>

theorem unmatched_group_contributes_nothing:
  "(Node n [(''color'', ''lightgreen'')] \<in> set (body (create_graph fs gs files s)) \<longleftrightarrow>
      (\<exists>grp\<in>set gs. \<exists>p\<in>set files. startswith p grp \<and> n = group_name_of grp))
   \<and> ((\<forall>p\<in>set files. \<not> startswith p G) \<longrightarrow>
        create_graph fs (gs1 @ G # gs2) files s = create_graph fs (gs1 @ gs2) files s \<and>
        find_nodes (gs1 @ G # gs2) g files = find_nodes (gs1 @ gs2) g files \<and>
        (group_name_of G \<in> nodes (find_nodes (gs1 @ G # gs2) g files) \<longrightarrow>
           (\<exists>grp\<in>set (gs1 @ gs2). \<exists>p\<in>set files.
               startswith p grp \<and> group_name_of grp = group_name_of G) \<or>
           (\<exists>p\<in>set files. filename_normalize p = group_name_of G)))"
proof (intro conjI impI)
  show "Node n [(''color'', ''lightgreen'')] \<in> set (body (create_graph fs gs files s)) \<longleftrightarrow>
      (\<exists>grp\<in>set gs. \<exists>p\<in>set files. startswith p grp \<and> n = group_name_of grp)"
    by (rule proxy_node_in_create_graph)
next
  assume nm: "\<forall>p\<in>set files. \<not> startswith p G"
  then have m: "\<forall>p\<in>set files. filter (startswith p) (gs1 @ G # gs2) = filter (startswith p) (gs1 @ gs2)"
    by simp
  have fg: "\<forall>p\<in>set files. folder_in_group (gs1 @ G # gs2) (dirname p) =
              folder_in_group (gs1 @ gs2) (dirname p)"
    using nm folder_covered_path_covered by (auto simp: folder_in_group_iff)
  from m fg show "create_graph fs (gs1 @ G # gs2) files s = create_graph fs (gs1 @ gs2) files s"
    by (rule create_graph_cong)
  from m show eq: "find_nodes (gs1 @ G # gs2) g files = find_nodes (gs1 @ gs2) g files"
    by (rule find_nodes_cong)
  assume "group_name_of G \<in> nodes (find_nodes (gs1 @ G # gs2) g files)"
  then have "group_name_of G \<in> nodes (find_nodes (gs1 @ gs2) g files)" by (simp only: eq)
  then show "(\<exists>grp\<in>set (gs1 @ gs2). \<exists>p\<in>set files.
               startswith p grp \<and> group_name_of grp = group_name_of G) \<or>
           (\<exists>p\<in>set files. filename_normalize p = group_name_of G)"
    unfolding find_nodes_nodes by (auto split: if_splits)
qed

theorem unmatched_group_contributes_nothing_witness:
  "\<not> startswith ''./src/x.h'' ''./lib'' \<and> \<not> startswith ''./main.c'' ''./lib'' \<and>
   body (create_graph fs_main_x [''./lib'', ''./src''] [''./src/x.h'', ''./main.c''] False) =
     [Node ''group - src'' [(''color'', ''lightgreen'')], Node ''main'' [],
      Edge ''main'' ''group - src'' [(''dir'', ''back''), (''color'', ''blue'')]]"
proof -
  have h: "\<forall>p\<in>set [''./src/x.h'', ''./main.c'']. \<not> startswith p ''./lib''"
    by (simp add: eval_unmatched)
  note t = unmatched_group_contributes_nothing [of _ fs_main_x _ "[''./src/x.h'', ''./main.c'']" False
      "''./lib''" "[]" "[''./src'']"]
  have "create_graph fs_main_x ([] @ ''./lib'' # [''./src'']) [''./src/x.h'', ''./main.c''] False =
        create_graph fs_main_x ([] @ [''./src'']) [''./src/x.h'', ''./main.c''] False"
    by (rule conjunct1 [OF mp [OF conjunct2 [OF t] h]])
  then have "create_graph fs_main_x [''./lib'', ''./src''] [''./src/x.h'', ''./main.c''] False =
        create_graph fs_main_x [''./src''] [''./src/x.h'', ''./main.c''] False"
    by (simp only: append_Nil)
  then have "body (create_graph fs_main_x [''./lib'', ''./src''] [''./src/x.h'', ''./main.c''] False) =
        body (create_graph fs_main_x [''./src''] [''./src/x.h'', ''./main.c''] False)"
    by (rule arg_cong)
  then have b: "body (create_graph fs_main_x [''./lib'', ''./src''] [''./src/x.h'', ''./main.c''] False) =
     [Node ''group - src'' [(''color'', ''lightgreen'')], Node ''main'' [],
      Edge ''main'' ''group - src'' [(''dir'', ''back''), (''color'', ''blue'')]]"
    by (simp only: eval_unmatched_graph)
  from eval_unmatched b show ?thesis by (intro conjI)
qed

text \<open>
  C10 as stated fails: with the rules \<^verbatim>\<open>./src/lib\<close> and \<^verbatim>\<open>./test/lib\<close> and the one file
  \<^verbatim>\<open>./src/lib/x.h\<close>, the second rule matches no file, and the node set and the graph hold
  the node \<^verbatim>\<open>group - lib\<close>, which is the proxy id of that rule as well.
\<close>

theorem unmatched_group_counterexample:
  "\<not> startswith ''./src/lib/x.h'' ''./test/lib'' \<and>
   group_name_of ''./test/lib'' \<in>
     nodes (find_nodes [''./src/lib'', ''./test/lib''] (Digraph False []) [''./src/lib/x.h'']) \<and>
   Node (group_name_of ''./test/lib'') [(''color'', ''lightgreen'')] \<in>
     set (body (create_graph fs_main_x [''./src/lib'', ''./test/lib''] [''./src/lib/x.h''] False))"
  by (simp add: eval_same_name_rules)

end
